theory Spec2Isabelle
  imports Main "HOL-Library.Sublist" "HOL-Library.Multiset" "HOL-Library.AList"
begin

section \<open>Strings, characters and panics\<close>

text \<open>
  A Go \<open>string\<close> is a sequence of bytes, modelled as a \<open>char list\<close>. Every pattern of
  the program is built from ASCII literals, the classes \<open>\s\<close>, \<open>.\<close>, \<open>[\s\S]\<close>,
  \<open>[^"]\<close>, \<open>[^']\<close>, the identifier classes and the assertions \<open>^\<close>, \<open>$\<close>, \<open>\b\<close>. An
  ASCII byte is never part of a longer UTF-8 sequence, so matching these patterns rune by
  rune (as Go does) and byte by byte gives the same match boundaries.
\<close>

datatype panic = IndexOutOfRange nat | BadRegexp string

definition newline :: char where
  "newline = CHR 0x0A"

text \<open>The class \<open>\s\<close> of Go's regexp package: tab, line feed, form feed, carriage return, space.\<close>

definition is_space :: "char \<Rightarrow> bool" where
  "is_space c = (c = CHR 0x09 \<or> c = CHR 0x0A \<or> c = CHR 0x0C \<or> c = CHR 0x0D \<or> c = CHR '' '')"

definition is_digit :: "char \<Rightarrow> bool" where
  "is_digit c = (c \<in> set ''0123456789'')"

definition is_letter :: "char \<Rightarrow> bool" where
  "is_letter c = (c \<in> set ''abcdefghijklmnopqrstuvwxyzABCDEFGHIJKLMNOPQRSTUVWXYZ'')"

text \<open>The class \<open>\w\<close> that decides the word boundary \<open>\b\<close>.\<close>

definition is_word :: "char \<Rightarrow> bool" where
  "is_word c = (is_letter c \<or> is_digit c \<or> c = CHR ''_'')"

text \<open>The classes \<open>[a-zA-Z_$]\<close> and \<open>[a-zA-Z0-9_$]\<close> of the declaration pattern.\<close>

definition is_ident_start :: "char \<Rightarrow> bool" where
  "is_ident_start c = (is_letter c \<or> c = CHR ''_'' \<or> c = CHR ''$'')"

definition is_ident_char :: "char \<Rightarrow> bool" where
  "is_ident_char c = (is_word c \<or> c = CHR ''$'')"

text \<open>The length of the longest run of whitespace at the head of a string.\<close>

definition spaces :: "string \<Rightarrow> nat" where
  "spaces s = length (takeWhile is_space s)"

text \<open>Indexing a string, \<open>s[i]\<close>, panics out of range.\<close>

definition index_byte :: "string \<Rightarrow> nat \<Rightarrow> panic + char" where
  "index_byte s i = (if i < length s then Inr (s ! i) else Inl (IndexOutOfRange i))"

text \<open>The verb \<open>%d\<close> of \<open>fmt.Sprintf\<close> on a non-negative integer.\<close>

definition digit_char :: "nat \<Rightarrow> char" where
  "digit_char d = ''0123456789'' ! d"

function fmt_d :: "nat \<Rightarrow> string" where
  "fmt_d n = (if n < 10 then [digit_char n] else fmt_d (n div 10) @ [digit_char (n mod 10)])"
  by pat_completeness auto
termination
  by (relation "measure id") auto

declare fmt_d.simps [simp del]

text \<open>Reading a decimal numeral back, used to say what \<open>fmt_d\<close> produces.\<close>

definition digit_val :: "char \<Rightarrow> nat" where
  "digit_val c = of_char c - 48"

definition dec_val :: "string \<Rightarrow> nat" where
  "dec_val s = foldl (\<lambda>a c. 10 * a + digit_val c) 0 s"

section \<open>The minifier and its name generator\<close>

record Minifier =
  input :: string
  preserveLicense :: bool
  shortenVars :: bool
  varMap :: "(string \<times> string) list"
  varCounter :: nat

text \<open>
  The Go map \<open>varMap\<close> is an association list with distinct keys, in insertion order;
  the order in which \<open>range\<close> visits it is a separate parameter of the functions below.
  \<open>varCounter\<close> is a Go \<open>int\<close> that starts at 0 and is incremented once per declared name,
  so it stays far below the range of the machine integer and is a \<open>nat\<close> here.
\<close>

definition NewMinifier :: "string \<Rightarrow> bool \<Rightarrow> bool \<Rightarrow> Minifier" where
  "NewMinifier inp pl sv =
     \<lparr>input = inp, preserveLicense = pl, shortenVars = sv, varMap = [], varCounter = 0\<rparr>"

definition alphabet :: string where
  "alphabet = ''abcdefghijklmnopqrstuvwxyz''"

definition generateVarName :: "Minifier \<Rightarrow> panic + (string \<times> Minifier)" where
  "generateVarName m =
     (let suffix = varCounter m div 26 in
      case index_byte alphabet (varCounter m mod 26) of
        Inl e \<Rightarrow> Inl e
      | Inr ch \<Rightarrow>
          (let m' = m\<lparr>varCounter := Suc (varCounter m)\<rparr> in
           if suffix = 0 then Inr ([ch], m') else Inr (ch # fmt_d suffix, m')))"

text \<open>
  The name the specification gives to the N-th call: the letter at position \<open>N mod 26\<close>,
  followed by the decimal numeral of \<open>N div 26\<close> when that quotient is not zero.
\<close>

definition nth_name :: "nat \<Rightarrow> string" where
  "nth_name N = (alphabet ! (N mod 26)) # (if N div 26 = 0 then [] else fmt_d (N div 26))"

section \<open>Regular expressions of the program\<close>

text \<open>
  A compiled pattern is modelled by the function that says, for a position in the text,
  whether the pattern matches there and how many bytes the preferred (leftmost-first)
  match covers. The position is given by the byte before it (\<open>None\<close> at the start of the
  text, which decides \<open>^\<close> and \<open>\b\<close>) and by the rest of the text from the position on
  (which decides \<open>$\<close>). No flag is set on any pattern, so \<open>^\<close> and \<open>$\<close> are the start and
  the end of the whole text, and \<open>.\<close> is every byte but the line feed.
\<close>

type_synonym matcher = "char option \<Rightarrow> string \<Rightarrow> nat option"

text \<open>The index of the first occurrence of a substring, as \<open>strings.Index\<close>.\<close>

fun find_sub :: "string \<Rightarrow> string \<Rightarrow> nat option" where
  "find_sub pat [] = (if pat = [] then Some 0 else None)"
| "find_sub pat (c # cs) =
     (if prefix pat (c # cs) then Some 0 else map_option Suc (find_sub pat cs))"

text \<open>\<^verbatim>\<open>^/\*![\s\S]*?\*/\<close>\<close>

definition re_license :: matcher where
  "re_license prev s =
     (if prev = None \<and> prefix ''/*!'' s
      then (case find_sub ''*/'' (drop 3 s) of Some k \<Rightarrow> Some (3 + k + 2) | None \<Rightarrow> None)
      else None)"

text \<open>\<^verbatim>\<open>//.*\<close>\<close>

definition re_line_comment :: matcher where
  "re_line_comment prev s =
     (if prefix ''//'' s then Some (2 + length (takeWhile (\<lambda>c. c \<noteq> newline) (drop 2 s)))
      else None)"

text \<open>\<^verbatim>\<open>/\*[\s\S]*?\*/\<close>\<close>

definition re_block_comment :: matcher where
  "re_block_comment prev s =
     (if prefix ''/*'' s
      then (case find_sub ''*/'' (drop 2 s) of Some k \<Rightarrow> Some (2 + k + 2) | None \<Rightarrow> None)
      else None)"

text \<open>
  \<^verbatim>\<open>^\s+|\s+$\<close>: the first alternative at the start of the text, the second where the run of
  whitespace reaches the end of the text.
\<close>

definition re_trim :: matcher where
  "re_trim prev s =
     (let n = spaces s in
      if n = 0 then None
      else if prev = None then Some n
      else if n = length s then Some n
      else None)"

text \<open>\<^verbatim>\<open>\s{2,}\<close>\<close>

definition re_multi_space :: matcher where
  "re_multi_space prev s = (let n = spaces s in if 2 \<le> n then Some n else None)"

text \<open>\<^verbatim>\<open>\s*c\s*\<close> for a literal byte \<open>c\<close> that is not whitespace.\<close>

definition re_around :: "char \<Rightarrow> matcher" where
  "re_around c prev s =
     (let n = spaces s in
      case drop n s of
        [] \<Rightarrow> None
      | x # r \<Rightarrow> if x = c then Some (n + 1 + spaces r) else None)"

text \<open>\<^verbatim>\<open>;;+\<close>\<close>

definition re_semicolons :: matcher where
  "re_semicolons prev s =
     (let n = length (takeWhile (\<lambda>c. c = CHR '';'') s) in if 2 \<le> n then Some n else None)"

text \<open>\<^verbatim>\<open>function\s+\<close>\<close>

definition re_function :: matcher where
  "re_function prev s =
     (if prefix ''function'' s \<and> 1 \<le> spaces (drop 8 s) then Some (8 + spaces (drop 8 s))
      else None)"

text \<open>\<^verbatim>\<open>\n+\<close>\<close>

definition re_newlines :: matcher where
  "re_newlines prev s =
     (let n = length (takeWhile (\<lambda>c. c = newline) s) in if 1 \<le> n then Some n else None)"

text \<open>\<^verbatim>\<open>,\s+\<close>\<close>

definition re_comma_space :: matcher where
  "re_comma_space prev s =
     (case s of
        [] \<Rightarrow> None
      | x # r \<Rightarrow> if x = CHR '','' \<and> 1 \<le> spaces r then Some (1 + spaces r) else None)"

text \<open>
  \<open>FindString\<close>: the text of the leftmost match, or the empty string when there is none.
\<close>

fun FindString :: "matcher \<Rightarrow> char option \<Rightarrow> string \<Rightarrow> string" where
  "FindString re prev [] = []"
| "FindString re prev (c # cs) =
     (case re prev (c # cs) of
        Some n \<Rightarrow> take n (c # cs)
      | None \<Rightarrow> FindString re (Some c) cs)"

text \<open>
  \<open>ReplaceAllString\<close>: the text is scanned from the left; where the pattern matches, the
  replacement is written and the scan goes on after the match; elsewhere the byte is
  copied. No replacement text of the program contains \<open>$\<close>, so none is expanded. Every
  pattern given to this function in the program matches at least one byte (lemmas
  \<open>static_patterns_nonempty\<close> and \<open>re_usage_nonempty\<close>); a match of no byte is not
  modelled and is taken as no match.
\<close>

function ReplaceAllString :: "matcher \<Rightarrow> string \<Rightarrow> char option \<Rightarrow> string \<Rightarrow> string" where
  "ReplaceAllString re repl prev [] = []"
| "ReplaceAllString re repl prev (c # cs) =
     (case re prev (c # cs) of
        Some (Suc n) \<Rightarrow>
          repl @ ReplaceAllString re repl (Some (last (c # take n cs))) (drop n cs)
      | _ \<Rightarrow> c # ReplaceAllString re repl (Some c) cs)"
  by pat_completeness auto
termination
  by (relation "measure (\<lambda>(re, repl, prev, s). length s)") auto

section \<open>The fixed stages of Minify\<close>

text \<open>
  The operator table, as the source writes it: each entry is used both as a fragment of
  the pattern \<^verbatim>\<open>\s*\<close> + op + \<^verbatim>\<open>\s*\<close> and, unchanged, as the replacement text.
\<close>

definition backslash :: char where
  "backslash = CHR 0x5C"

definition operators :: "string list" where
  "operators =
     [[backslash, CHR ''+''], ''-'', [backslash, CHR ''*''], ''/'', ''='', ''<'', ''>'', ''!'',
      [backslash, CHR ''?''], '':'', ''&'', [backslash, CHR ''|''], '';'', '','']"

text \<open>
  What \<open>regexp.MustCompile\<close> makes of an operator fragment: one byte that is not a
  metacharacter is that literal, a backslash before a punctuation byte is that literal.
  Any other fragment is outside the model and counts as a failed compilation.
\<close>

definition is_meta :: "char \<Rightarrow> bool" where
  "is_meta c = (c \<in> set ''.+*?()|[]{}^$'' \<or> c = backslash)"

definition is_punct :: "char \<Rightarrow> bool" where
  "is_punct c = (c \<in> set ''!#$%&()*+,-./:;<=>?@[]^_`{|}~'' \<or> c = backslash
                 \<or> c = CHR 0x22 \<or> c = CHR 0x27)"

fun compile_op :: "string \<Rightarrow> panic + char" where
  "compile_op [c] = (if is_meta c \<or> is_space c then Inl (BadRegexp [c]) else Inr c)"
| "compile_op [b, c] =
     (if b = backslash \<and> is_punct c then Inr c else Inl (BadRegexp [b, c]))"
| "compile_op op = Inl (BadRegexp op)"

text \<open>Lines 102 to 111: the leading license comment is cut off and kept.\<close>

definition stage_license :: "bool \<Rightarrow> string \<Rightarrow> string \<times> string" where
  "stage_license pl result =
     (if pl then
        (let license = FindString re_license None result in
         if license \<noteq> [] then (license @ [newline], ReplaceAllString re_license [] None result)
         else ([], result))
      else ([], result))"

text \<open>Lines 113 to 119: line comments and block comments.\<close>

definition stage_comments :: "string \<Rightarrow> string" where
  "stage_comments result =
     (let result = ReplaceAllString re_line_comment [] None result;
          result = ReplaceAllString re_block_comment [] None result
      in result)"

text \<open>Lines 121 to 127: outer whitespace, runs of whitespace.\<close>

definition stage_whitespace :: "string \<Rightarrow> string" where
  "stage_whitespace result =
     (let result = ReplaceAllString re_trim [] None result;
          result = ReplaceAllString re_multi_space '' '' None result
      in result)"

text \<open>Lines 129 to 134: the loop over the operator table.\<close>

fun stage_operators :: "string list \<Rightarrow> string \<Rightarrow> panic + string" where
  "stage_operators [] result = Inr result"
| "stage_operators (op # ops) result =
     (case compile_op op of
        Inl e \<Rightarrow> Inl e
      | Inr c \<Rightarrow> stage_operators ops (ReplaceAllString (re_around c) op None result))"

text \<open>Lines 136 to 164: semicolons, the function keyword, line feeds, commas, brackets.\<close>

definition stage_punct :: "string \<Rightarrow> string" where
  "stage_punct result =
     (let result = ReplaceAllString re_semicolons '';'' None result;
          result = ReplaceAllString re_function ''function'' None result;
          result = ReplaceAllString re_newlines [] None result;
          result = ReplaceAllString re_comma_space '','' None result;
          result = ReplaceAllString (re_around CHR ''{'') ''{'' None result;
          result = ReplaceAllString (re_around CHR ''}'') ''}'' None result;
          result = ReplaceAllString (re_around CHR ''['') ''['' None result;
          result = ReplaceAllString (re_around CHR '']'') '']'' None result;
          result = ReplaceAllString (re_around CHR ''('') ''('' None result;
          result = ReplaceAllString (re_around CHR '')'') '')'' None result
      in result)"

section \<open>Renaming variables\<close>

text \<open>
  \<open>ReplaceAllStringFunc\<close> with a closure that reads and writes captured variables: the
  captured state is passed to the closure with the matched text and returned with the
  replacement. The closure of the declaration scan can panic, so the result is a sum.
\<close>

function ReplaceAllStringFunc ::
  "matcher \<Rightarrow> ('s \<Rightarrow> string \<Rightarrow> panic + (string \<times> 's)) \<Rightarrow> 's \<Rightarrow> char option \<Rightarrow> string
     \<Rightarrow> panic + (string \<times> 's)" where
  "ReplaceAllStringFunc re f st prev [] = Inr ([], st)"
| "ReplaceAllStringFunc re f st prev (c # cs) =
     (case re prev (c # cs) of
        Some (Suc n) \<Rightarrow>
          (case f st (c # take n cs) of
             Inl e \<Rightarrow> Inl e
           | Inr (r, st') \<Rightarrow>
               (case ReplaceAllStringFunc re f st' (Some (last (c # take n cs))) (drop n cs) of
                  Inl e \<Rightarrow> Inl e
                | Inr (out, st'') \<Rightarrow> Inr (r @ out, st'')))
      | _ \<Rightarrow>
          (case ReplaceAllStringFunc re f st (Some c) cs of
             Inl e \<Rightarrow> Inl e
           | Inr (out, st') \<Rightarrow> Inr (c # out, st')))"
  by pat_completeness auto
termination
  by (relation "measure (\<lambda>(re, f, st, prev, s). length s)") auto

definition dquote :: char where
  "dquote = CHR 0x22"

definition squote :: char where
  "squote = CHR 0x27"

text \<open>\<^verbatim>\<open>"[^"]*"|'[^']*'\<close>: from a quote to the next quote of the same kind.\<close>

definition re_string :: matcher where
  "re_string prev s =
     (case s of
        [] \<Rightarrow> None
      | q # r \<Rightarrow>
          if (q = dquote \<or> q = squote) \<and> q \<in> set r
          then Some (length (takeWhile (\<lambda>c. c \<noteq> q) r) + 2)
          else None)"

text \<open>
  The closure of the shielding pass (lines 64 to 68). The Go map \<open>stringLiterals\<close> is an
  association list with distinct keys, so \<open>len\<close> is its length and an assignment is
  \<open>AList.update\<close>.
\<close>

definition placeholder_of :: "nat \<Rightarrow> string" where
  "placeholder_of n = ''__STR_'' @ fmt_d n @ ''__''"

definition shield_fn ::
  "(string \<times> string) list \<Rightarrow> string \<Rightarrow> panic + (string \<times> (string \<times> string) list)" where
  "shield_fn stringLiterals s =
     (let placeholder = placeholder_of (length stringLiterals)
      in Inr (placeholder, AList.update placeholder s stringLiterals))"

text \<open>
  \<^verbatim>\<open>\b(var|let|const)\s+([a-zA-Z_$][a-zA-Z0-9_$]*)\b\<close>, with its two groups. The greedy
  identifier group first takes every identifier byte and gives bytes back one at a time
  until the final \<open>\b\<close> holds.
\<close>

definition next_char :: "string \<Rightarrow> char option" where
  "next_char s = (case s of [] \<Rightarrow> None | c # _ \<Rightarrow> Some c)"

definition word_boundary :: "char option \<Rightarrow> char option \<Rightarrow> bool" where
  "word_boundary a b =
     ((case a of None \<Rightarrow> False | Some c \<Rightarrow> is_word c)
        \<noteq> (case b of None \<Rightarrow> False | Some c \<Rightarrow> is_word c))"

definition decl_keywords :: "string list" where
  "decl_keywords = [''var'', ''let'', ''const'']"

fun ident_end :: "string \<Rightarrow> nat \<Rightarrow> nat option" where
  "ident_end s 0 = None"
| "ident_end s (Suc n) =
     (if word_boundary (Some (last (take (Suc n) s))) (next_char (drop (Suc n) s))
      then Some (Suc n) else ident_end s n)"

definition re_decl_sub :: "char option \<Rightarrow> string \<Rightarrow> (nat \<times> string \<times> string) option" where
  "re_decl_sub prev s =
     (if word_boundary prev (next_char s) then
        (case find (\<lambda>k. prefix k s) decl_keywords of
           None \<Rightarrow> None
         | Some kw \<Rightarrow>
             (let r = drop (length kw) s; w = spaces r; r' = drop w r in
              if w = 0 then None
              else (case r' of
                      [] \<Rightarrow> None
                    | c # _ \<Rightarrow>
                        if is_ident_start c then
                          (case ident_end r' (length (takeWhile is_ident_char r')) of
                             None \<Rightarrow> None
                           | Some j \<Rightarrow> Some (length kw + w + j, kw, take j r'))
                        else None)))
      else None)"

definition re_decl :: matcher where
  "re_decl prev s = map_option fst (re_decl_sub prev s)"

text \<open>\<open>FindStringSubmatch\<close>: the leftmost match and its groups, or no element at all.\<close>

fun FindStringSubmatch ::
  "(char option \<Rightarrow> string \<Rightarrow> (nat \<times> string \<times> string) option) \<Rightarrow> char option \<Rightarrow> string
     \<Rightarrow> string list" where
  "FindStringSubmatch re prev [] = []"
| "FindStringSubmatch re prev (c # cs) =
     (case re prev (c # cs) of
        Some (n, g1, g2) \<Rightarrow> [take n (c # cs), g1, g2]
      | None \<Rightarrow> FindStringSubmatch re (Some c) cs)"

text \<open>
  The closure of the declaration scan (lines 72 to 82). It matches the pattern again on
  the matched text alone, allocates a name for an identifier it has not seen, and returns
  the keyword, one space and the short name. A key that is absent from a Go map reads as
  the empty string.
\<close>

definition map_get :: "(string \<times> string) list \<Rightarrow> string \<Rightarrow> string" where
  "map_get al k = (case map_of al k of None \<Rightarrow> [] | Some v \<Rightarrow> v)"

definition declare_fn :: "Minifier \<Rightarrow> string \<Rightarrow> panic + (string \<times> Minifier)" where
  "declare_fn m s =
     (let parts = FindStringSubmatch re_decl_sub None s in
      if length parts = 3 then
        (let original = parts ! 2 in
         case (if map_of (varMap m) original = None then
                 (case generateVarName m of
                    Inl e \<Rightarrow> Inl e
                  | Inr (name, m') \<Rightarrow>
                      Inr (m'\<lparr>varMap := AList.update original name (varMap m')\<rparr>))
               else Inr m) of
           Inl e \<Rightarrow> Inl e
         | Inr m' \<Rightarrow> Inr (parts ! 1 @ '' '' @ map_get (varMap m') original, m'))
      else Inr (s, m))"

text \<open>
  The usage pattern \<^verbatim>\<open>\b\<close> + original + \<^verbatim>\<open>\b\<close> is compiled from the identifier. A
  letter, a digit and the underscore are literals; \<open>$\<close> is the end of the text. Any other
  byte is outside the model and counts as a failed compilation.
\<close>

datatype item = Lit char | EndText

fun compile_ident :: "string \<Rightarrow> panic + item list" where
  "compile_ident [] = Inr []"
| "compile_ident (c # cs) =
     (if is_word c \<or> c = CHR ''$'' then
        (case compile_ident cs of
           Inl e \<Rightarrow> Inl e
         | Inr items \<Rightarrow> Inr ((if c = CHR ''$'' then EndText else Lit c) # items))
      else Inl (BadRegexp (c # cs)))"

fun match_items :: "item list \<Rightarrow> string \<Rightarrow> nat option" where
  "match_items [] s = Some 0"
| "match_items (Lit c # items) [] = None"
| "match_items (Lit c # items) (x # xs) =
     (if x = c then map_option Suc (match_items items xs) else None)"
| "match_items (EndText # items) s = (if s = [] then match_items items s else None)"

definition re_usage :: "item list \<Rightarrow> matcher" where
  "re_usage items prev s =
     (if word_boundary prev (next_char s) then
        (case match_items items s of
           None \<Rightarrow> None
         | Some n \<Rightarrow>
             if word_boundary (if n = 0 then prev else Some (last (take n s)))
                  (next_char (drop n s))
             then Some n else None)
      else None)"

text \<open>Lines 85 to 88: one whole-word replacement per entry of the rename table.\<close>

fun usage_loop :: "(string \<times> string) list \<Rightarrow> string \<Rightarrow> panic + string" where
  "usage_loop [] code = Inr code"
| "usage_loop ((original, short) # rest) code =
     (case compile_ident original of
        Inl e \<Rightarrow> Inl e
      | Inr items \<Rightarrow> usage_loop rest (ReplaceAllString (re_usage items) short None code))"

text \<open>
  \<open>strings.Replace(s, old, new, -1)\<close>: every occurrence of \<open>old\<close>, from the left and
  without overlap. \<open>old\<close> is a placeholder in the program, never empty; the insertion
  that Go makes for an empty \<open>old\<close> is not modelled.
\<close>

function strings_Replace :: "string \<Rightarrow> string \<Rightarrow> string \<Rightarrow> string" where
  "strings_Replace [] old new = []"
| "strings_Replace (c # cs) old new =
     (if old \<noteq> [] \<and> prefix old (c # cs)
      then new @ strings_Replace (drop (length old) (c # cs)) old new
      else c # strings_Replace cs old new)"
  by pat_completeness auto
termination
  by (relation "measure (\<lambda>(s, old, new). length s)") (auto simp: Suc_le_eq)

text \<open>Lines 91 to 93: every placeholder is replaced by its literal.\<close>

fun restore_loop :: "(string \<times> string) list \<Rightarrow> string \<Rightarrow> string" where
  "restore_loop [] code = code"
| "restore_loop ((placeholder, str) # rest) code =
     restore_loop rest (strings_Replace code placeholder str)"

text \<open>
  The order in which \<open>range\<close> visits a Go map is not fixed. The two loops over maps take
  the order as a parameter: a function that lists the entries of the table in the order
  of the visit. It is well-formed when it returns a permutation of the table.
\<close>

record iteration =
  range_varMap :: "(string \<times> string) list \<Rightarrow> (string \<times> string) list"
  range_stringLiterals :: "(string \<times> string) list \<Rightarrow> (string \<times> string) list"

definition is_range :: "((string \<times> string) list \<Rightarrow> (string \<times> string) list) \<Rightarrow> bool" where
  "is_range f = (\<forall>xs. mset (f xs) = mset xs)"

definition insertion_order :: iteration where
  "insertion_order = \<lparr>range_varMap = (\<lambda>xs. xs), range_stringLiterals = (\<lambda>xs. xs)\<rparr>"

definition reverse_order :: iteration where
  "reverse_order = \<lparr>range_varMap = rev, range_stringLiterals = rev\<rparr>"

definition shortenVariableNames :: "iteration \<Rightarrow> Minifier \<Rightarrow> string \<Rightarrow> panic + (string \<times> Minifier)" where
  "shortenVariableNames it m code =
     (case ReplaceAllStringFunc re_string shield_fn [] None code of
        Inl e \<Rightarrow> Inl e
      | Inr (code, stringLiterals) \<Rightarrow>
          (case ReplaceAllStringFunc re_decl declare_fn m None code of
             Inl e \<Rightarrow> Inl e
           | Inr (code, m) \<Rightarrow>
               (case usage_loop (range_varMap it (varMap m)) code of
                  Inl e \<Rightarrow> Inl e
                | Inr code \<Rightarrow>
                    Inr (restore_loop (range_stringLiterals it stringLiterals) code, m))))"

section \<open>Minify\<close>

definition Minify :: "iteration \<Rightarrow> Minifier \<Rightarrow> panic + string" where
  "Minify it m =
     (let (licenseComment, result) = stage_license (preserveLicense m) (input m);
          result = stage_comments result;
          result = stage_whitespace result
      in case stage_operators operators result of
           Inl e \<Rightarrow> Inl e
         | Inr result \<Rightarrow>
             (let result = stage_punct result in
              case (if shortenVars m then shortenVariableNames it m result else Inr (result, m)) of
                Inl e \<Rightarrow> Inl e
              | Inr (result, m') \<Rightarrow>
                  Inr (if preserveLicense m \<and> licenseComment \<noteq> [] then licenseComment @ result
                       else result)))"

text \<open>
  Notions used to state what the passes of the renamer keep true. An identifier captured
  by the declaration pattern is not empty, has identifier bytes only and ends with a word
  byte. After any number of declarations the rename table pairs the identifiers, in the
  order of their first declaration, with the names of the counters 0, 1, 2, ...; the
  shield table pairs the placeholders 0, 1, 2, ... with the literals.
\<close>

definition boundary_at :: "string \<Rightarrow> nat \<Rightarrow> bool" where
  "boundary_at s j = word_boundary (Some (last (take j s))) (next_char (drop j s))"

definition good_ident :: "string \<Rightarrow> bool" where
  "good_ident k = (k \<noteq> [] \<and> list_all is_ident_char k \<and> is_word (last k))"

definition decl_inv :: "Minifier \<Rightarrow> bool" where
  "decl_inv m =
     (\<exists>ks. varMap m = zip ks (map nth_name [0..<length ks]) \<and> varCounter m = length ks
            \<and> distinct ks \<and> list_all good_ident ks)"

definition shield_inv :: "char set \<Rightarrow> (string \<times> string) list \<Rightarrow> bool" where
  "shield_inv S tbl =
     (\<exists>lits. tbl = zip (map placeholder_of [0..<length lits]) lits
              \<and> list_all (\<lambda>l. set l \<subseteq> S) lits)"

text \<open>
  A text cut into words (longest runs of word bytes) and single other bytes, and the
  replacement of one whole word by another; the usage pass is described with them.
\<close>

function tokens :: "string \<Rightarrow> string list" where
  "tokens [] = []"
| "tokens (c # cs) =
     (if is_word c then (c # takeWhile is_word cs) # tokens (dropWhile is_word cs)
      else [c] # tokens cs)"
  by pat_completeness auto
termination
  by (relation "measure length") (auto simp: length_dropWhile_le less_Suc_eq_le)

definition subst_word :: "string \<Rightarrow> string \<Rightarrow> string \<Rightarrow> string" where
  "subst_word k v t = (if t = k then v else t)"

definition subst_words :: "string \<Rightarrow> string \<Rightarrow> string \<Rightarrow> string" where
  "subst_words k v s = concat (map (subst_word k v) (tokens s))"

text \<open>One step of the usage loop, for an entry whose pattern compiles.\<close>

definition usage_step :: "string \<times> string \<Rightarrow> string \<Rightarrow> string" where
  "usage_step e code =
     (case compile_ident (fst e) of
        Inl err \<Rightarrow> code
      | Inr items \<Rightarrow> ReplaceAllString (re_usage items) (snd e) None code)"

text \<open>
  A buffer cut where the shielding pattern matches: a list of copied bytes and of quoted
  literals. Numbering the literals from \<open>n\<close>, \<open>mixed R n\<close> writes the literals whose number is
  in \<open>R\<close> as they are and the others as their placeholders: with no number in \<open>R\<close> this is
  the shielded buffer, with every number in \<open>R\<close> it is the buffer itself.
\<close>

datatype piece = Chr char | Quoted string

function pieces :: "string \<Rightarrow> piece list" where
  "pieces [] = []"
| "pieces (c # cs) =
     (case re_string None (c # cs) of
        Some (Suc n) \<Rightarrow> Quoted (c # take n cs) # pieces (drop n cs)
      | _ \<Rightarrow> Chr c # pieces cs)"
  by pat_completeness auto
termination
  by (relation "measure length") auto

fun unparse :: "piece list \<Rightarrow> string" where
  "unparse [] = []"
| "unparse (Chr c # ps) = c # unparse ps"
| "unparse (Quoted l # ps) = l @ unparse ps"

fun literals :: "piece list \<Rightarrow> string list" where
  "literals [] = []"
| "literals (Chr c # ps) = literals ps"
| "literals (Quoted l # ps) = l # literals ps"

fun mixed :: "nat set \<Rightarrow> nat \<Rightarrow> piece list \<Rightarrow> string" where
  "mixed R n [] = []"
| "mixed R n (Chr c # ps) = c # mixed R n ps"
| "mixed R n (Quoted l # ps) = (if n \<in> R then l else placeholder_of n) @ mixed R (Suc n) ps"

definition quoted :: "string \<Rightarrow> bool" where
  "quoted l = (2 \<le> length l \<and> (hd l = dquote \<or> hd l = squote) \<and> last l = hd l)"

text \<open>
  Pieces are well-formed when every literal is quoted and free of the text \<open>STR_\<close>, and
  no four copied bytes in a row spell \<open>STR_\<close>.
\<close>

definition wf_pieces :: "piece list \<Rightarrow> bool" where
  "wf_pieces ps =
     (list_all (\<lambda>l. quoted l \<and> \<not> sublist ''STR_'' l) (literals ps)
      \<and> \<not> sublist (map Chr ''STR_'') ps)"

text \<open>The literal with number \<open>k\<close>, when the literals are numbered from \<open>n\<close>, is \<open>new\<close>.\<close>

fun lit_is :: "nat \<Rightarrow> piece list \<Rightarrow> nat \<Rightarrow> string \<Rightarrow> bool" where
  "lit_is n [] k new = True"
| "lit_is n (Chr c # ps) k new = lit_is n ps k new"
| "lit_is n (Quoted l # ps) k new = ((n = k \<longrightarrow> new = l) \<and> lit_is (Suc n) ps k new)"

text \<open>The table of the shielding pass for the literals of a list of pieces.\<close>

definition shield_table :: "nat \<Rightarrow> piece list \<Rightarrow> (string \<times> string) list" where
  "shield_table n ps = zip (map placeholder_of [n..<n + length (literals ps)]) (literals ps)"

text \<open>The operators whose entry in the operator table is two bytes long.\<close>

definition long_ops :: "char set" where
  "long_ops = set ''+*?|''"

text \<open>The bytes that the renamer can write: word bytes and the space.\<close>

definition name_chars :: "char set" where
  "name_chars = {c. is_word c \<or> c = CHR '' ''}"

definition well_formed :: "iteration \<Rightarrow> bool" where
  "well_formed it = (is_range (range_varMap it) \<and> is_range (range_stringLiterals it))"

text \<open>Deleting every whitespace byte, to compare two texts up to whitespace.\<close>

definition strip_whitespace :: "string \<Rightarrow> string" where
  "strip_whitespace s = filter (\<lambda>c. \<not> is_space c) s"


section \<open>Decimal numerals\<close>

lemma digit_cases:
  assumes "d < (10::nat)"
  shows "d = 0 \<or> d = 1 \<or> d = 2 \<or> d = 3 \<or> d = 4 \<or> d = 5 \<or> d = 6 \<or> d = 7 \<or> d = 8 \<or> d = 9"
  using assms by arith

lemma digit_val_digit_char: "d < 10 \<Longrightarrow> digit_val (digit_char d) = d"
  by (drule digit_cases) (auto simp: digit_val_def digit_char_def)

lemma dec_val_snoc: "dec_val (s @ [c]) = 10 * dec_val s + digit_val c"
  by (simp add: dec_val_def)

lemma dec_val_fmt_d: "dec_val (fmt_d n) = n"
proof (induction n rule: fmt_d.induct)
  case (1 n)
  show ?case
  proof (cases "n < 10")
    case True
    then show ?thesis
      by (subst fmt_d.simps) (simp add: dec_val_def digit_val_digit_char)
  next
    case False
    then have "dec_val (fmt_d n) = 10 * dec_val (fmt_d (n div 10)) + digit_val (digit_char (n mod 10))"
      by (subst fmt_d.simps) (simp add: dec_val_snoc)
    with False 1 show ?thesis
      by (simp add: digit_val_digit_char)
  qed
qed

lemma fmt_d_inj: "fmt_d a = fmt_d b \<Longrightarrow> a = b"
  by (metis dec_val_fmt_d)

lemma is_digit_digit_char: "d < 10 \<Longrightarrow> is_digit (digit_char d)"
  by (drule digit_cases) (auto simp: is_digit_def digit_char_def)

lemma fmt_d_digits: "\<forall>c \<in> set (fmt_d n). is_digit c"
proof (induction n rule: fmt_d.induct)
  case (1 n)
  show ?case
  proof (cases "n < 10")
    case True
    then show ?thesis
      by (subst fmt_d.simps) (simp add: is_digit_digit_char)
  next
    case False
    with 1 show ?thesis
      by (subst fmt_d.simps) (simp add: is_digit_digit_char)
  qed
qed

lemma fmt_d_nonempty: "fmt_d n \<noteq> []"
  by (subst fmt_d.simps) simp

section \<open>The name generator\<close>

lemma alphabet_length: "length alphabet = 26"
  by (simp add: alphabet_def)

lemma generateVarName_eq:
  "generateVarName m = Inr (nth_name (varCounter m), m\<lparr>varCounter := Suc (varCounter m)\<rparr>)"
  by (simp add: generateVarName_def index_byte_def alphabet_length nth_name_def Let_def)

lemma alphabet_nth_inj:
  assumes "i < 26" "j < 26" "alphabet ! i = alphabet ! j"
  shows "i = j"
proof -
  have "distinct alphabet" by (simp add: alphabet_def)
  with assms show ?thesis
    by (simp add: nth_eq_iff_index_eq alphabet_length)
qed

lemma nth_name_inj: "nth_name a = nth_name b \<Longrightarrow> a = b"
proof -
  assume eq: "nth_name a = nth_name b"
  then have l: "alphabet ! (a mod 26) = alphabet ! (b mod 26)"
    by (simp add: nth_name_def)
  then have m: "a mod 26 = b mod 26"
    by (intro alphabet_nth_inj) simp_all
  have d: "a div 26 = b div 26"
  proof (cases "a div 26 = 0")
    case True
    with eq show ?thesis
      by (auto simp: nth_name_def fmt_d_nonempty fmt_d_nonempty [symmetric] split: if_splits)
  next
    case False
    with eq show ?thesis
      by (auto simp: nth_name_def fmt_d_nonempty split: if_splits dest: fmt_d_inj)
  qed
  from m d show "a = b"
    by (metis div_mult_mod_eq)
qed

text \<open>
  Claim C6. The N-th call of the generator in one invocation (the call made with the
  counter at N) does not panic, returns the letter at position \<open>N mod 26\<close> of the alphabet
  followed by the decimal numeral of \<open>N div 26\<close> exactly when that quotient is not zero,
  and advances the counter by one; the numeral reads back as \<open>N div 26\<close>; and two calls
  with different counters never return the same name.
\<close>

theorem generateVarName_nth:
  "generateVarName (m\<lparr>varCounter := N\<rparr>)
     = Inr ((alphabet ! (N mod 26)) # (if N div 26 = 0 then [] else fmt_d (N div 26)),
            m\<lparr>varCounter := Suc N\<rparr>)
   \<and> dec_val (fmt_d (N div 26)) = N div 26
   \<and> (\<forall>m1 m2 n1 n2 r1 r2.
        generateVarName m1 = Inr (n1, r1) \<and> generateVarName m2 = Inr (n2, r2)
          \<and> varCounter m1 \<noteq> varCounter m2 \<longrightarrow> n1 \<noteq> n2)"
proof (intro conjI allI impI)
  show "generateVarName (m\<lparr>varCounter := N\<rparr>)
     = Inr ((alphabet ! (N mod 26)) # (if N div 26 = 0 then [] else fmt_d (N div 26)),
            m\<lparr>varCounter := Suc N\<rparr>)"
    by (simp add: generateVarName_eq nth_name_def)
  show "dec_val (fmt_d (N div 26)) = N div 26"
    by (rule dec_val_fmt_d)
next
  fix m1 m2 n1 n2 r1 r2
  assume "generateVarName m1 = Inr (n1, r1) \<and> generateVarName m2 = Inr (n2, r2)
          \<and> varCounter m1 \<noteq> varCounter m2"
  then show "n1 \<noteq> n2"
    by (auto simp: generateVarName_eq dest: nth_name_inj)
qed

theorem generateVarName_nth_witness:
  "generateVarName (NewMinifier [] False True\<lparr>varCounter := 27\<rparr>)
     = Inr (''b1'', NewMinifier [] False True\<lparr>varCounter := 28\<rparr>)
   \<and> dec_val ''1'' = 1
   \<and> generateVarName (NewMinifier [] False True) = Inr (''a'', NewMinifier [] False True\<lparr>varCounter := 1\<rparr>)
   \<and> ''a'' \<noteq> ''b1''"
proof -
  have f: "fmt_d (Suc 0) = ''1''" "dec_val ''1'' = Suc 0" by code_simp+
  have a: "alphabet ! Suc 0 = CHR ''b''" "alphabet ! 0 = CHR ''a''" by (simp_all add: alphabet_def)
  have z: "NewMinifier [] False True\<lparr>varCounter := 0\<rparr> = NewMinifier [] False True"
    by (simp add: NewMinifier_def)
  from generateVarName_nth [where m = "NewMinifier [] False True" and N = 27]
       generateVarName_nth [where m = "NewMinifier [] False True" and N = 0]
  show ?thesis by (simp add: f a z)
qed

section \<open>Facts about the replacement scan\<close>

lemma spaces_le: "spaces s \<le> length s"
  by (simp add: spaces_def length_takeWhile_le)

lemma take_spaces: "take (spaces s) s = takeWhile is_space s"
  by (simp add: spaces_def takeWhile_eq_take [symmetric])

lemma drop_spaces: "drop (spaces s) s = dropWhile is_space s"
  by (simp add: spaces_def dropWhile_eq_drop [symmetric])

lemma ReplaceAllString_Cons_match:
  "re prev (c # cs) = Some (Suc n) \<Longrightarrow>
   ReplaceAllString re repl prev (c # cs)
     = repl @ ReplaceAllString re repl (Some (last (c # take n cs))) (drop n cs)"
  by simp

lemma ReplaceAllString_Cons_copy:
  "(\<And>n. re prev (c # cs) \<noteq> Some (Suc n)) \<Longrightarrow>
   ReplaceAllString re repl prev (c # cs) = c # ReplaceAllString re repl (Some c) cs"
  by (cases "re prev (c # cs)") (auto split: nat.splits)

lemma ReplaceAllString_rel:
  assumes nil: "R [] []"
    and copy: "\<And>c cs out. R cs out \<Longrightarrow> R (c # cs) (c # out)"
    and rep: "\<And>prev c cs n out. re prev (c # cs) = Some (Suc n) \<Longrightarrow> R (drop n cs) out
                \<Longrightarrow> R (c # cs) (repl @ out)"
  shows "R s (ReplaceAllString re repl prev s)"
proof (induction s arbitrary: prev rule: length_induct)
  case (1 s)
  show ?case
  proof (cases s)
    case Nil
    with nil show ?thesis by simp
  next
    case (Cons c cs)
    show ?thesis
    proof (cases "\<exists>n. re prev (c # cs) = Some (Suc n)")
      case True
      then obtain n where m: "re prev (c # cs) = Some (Suc n)" ..
      have "length (drop n cs) < length s" using Cons by simp
      with 1 have "R (drop n cs) (ReplaceAllString re repl (Some (last (c # take n cs))) (drop n cs))"
        by blast
      with m have "R (c # cs) (repl @ ReplaceAllString re repl (Some (last (c # take n cs))) (drop n cs))"
        by (rule rep)
      with m Cons show ?thesis by (simp only: ReplaceAllString_Cons_match)
    next
      case False
      then have eq: "ReplaceAllString re repl prev (c # cs) = c # ReplaceAllString re repl (Some c) cs"
        by (intro ReplaceAllString_Cons_copy) blast
      have "length cs < length s" using Cons by simp
      with 1 have "R cs (ReplaceAllString re repl (Some c) cs)" by blast
      then have "R (c # cs) (c # ReplaceAllString re repl (Some c) cs)" by (rule copy)
      with eq Cons show ?thesis by simp
    qed
  qed
qed

lemma ReplaceAllString_set:
  "set (ReplaceAllString re repl prev s) \<subseteq> set s \<union> set repl"
proof (rule ReplaceAllString_rel [where R = "\<lambda>s out. set out \<subseteq> set s \<union> set repl"])
  show "set [] \<subseteq> set [] \<union> set repl" by simp
next
  fix c :: char and cs out
  assume "set out \<subseteq> set cs \<union> set repl"
  then show "set (c # out) \<subseteq> set (c # cs) \<union> set repl" by auto
next
  fix c :: char and cs out and n :: nat
  assume "set out \<subseteq> set (drop n cs) \<union> set repl"
  moreover have "set (drop n cs) \<subseteq> set cs" by (rule set_drop_subset)
  ultimately show "set (repl @ out) \<subseteq> set (c # cs) \<union> set repl" by auto
qed

lemma ReplaceAllString_length:
  assumes "\<And>prev s n. re prev s = Some n \<Longrightarrow> length repl \<le> n \<and> n \<le> length s"
  shows "length (ReplaceAllString re repl prev s) \<le> length s"
proof (rule ReplaceAllString_rel [where R = "\<lambda>s out. length out \<le> length s"])
  show "length ([]::string) \<le> length ([]::string)" by simp
next
  fix c :: char and cs out :: string
  assume "length out \<le> length cs"
  then show "length (c # out) \<le> length (c # cs)" by simp
next
  fix prev c cs n and out :: string
  assume m: "re prev (c # cs) = Some (Suc n)" and ih: "length out \<le> length (drop n cs)"
  from assms [OF m] have "length repl \<le> Suc n" "Suc n \<le> length (c # cs)" by simp_all
  with ih show "length (repl @ out) \<le> length (c # cs)" by simp
qed


lemma ReplaceAllString_no_match:
  assumes "\<And>prev t. set t \<subseteq> set s \<Longrightarrow> re prev t = None"
  shows "ReplaceAllString re repl prev s = s"
  using assms
proof (induction s arbitrary: prev)
  case Nil
  show ?case by simp
next
  case (Cons c cs)
  have "re prev (c # cs) = None" by (rule Cons.prems) simp
  moreover have "ReplaceAllString re repl (Some c) cs = cs"
    by (rule Cons.IH) (rule Cons.prems, auto)
  ultimately show ?case by simp
qed

declare ReplaceAllString.simps(2) [simp del]

section \<open>What each pattern matches\<close>



lemma re_trim_Some:
  assumes "re_trim prev s = Some n"
  shows "1 \<le> n \<and> n \<le> length s \<and> take n s = takeWhile is_space s"
proof -
  from assms have "n = spaces s" "spaces s \<noteq> 0"
    by (auto simp: re_trim_def Let_def split: if_splits)
  then show ?thesis using spaces_le [of s] take_spaces [of s] by simp
qed

lemma re_multi_space_Some:
  assumes "re_multi_space prev s = Some n"
  shows "2 \<le> n \<and> n \<le> length s \<and> take n s = takeWhile is_space s"
proof -
  from assms have "n = spaces s" "2 \<le> spaces s"
    by (auto simp: re_multi_space_def Let_def split: if_splits)
  then show ?thesis using spaces_le [of s] take_spaces [of s] by simp
qed

lemma re_around_Some:
  assumes "re_around c prev s = Some n"
  shows "\<exists>r. n = spaces s + 1 + spaces r \<and> n \<le> length s
           \<and> take n s = takeWhile is_space s @ c # takeWhile is_space r"
proof -
  from assms obtain r where d: "drop (spaces s) s = c # r" and n: "n = spaces s + 1 + spaces r"
    by (auto simp: re_around_def Let_def split: list.splits if_splits)
  have s: "s = takeWhile is_space s @ c # r"
    using d by (metis append_take_drop_id take_spaces)
  have l: "length (takeWhile is_space s) = spaces s" by (simp add: spaces_def)
  have "take n s = take n (takeWhile is_space s @ c # r)" using s by simp
  also have "\<dots> = takeWhile is_space s @ c # take (spaces r) r"
    using n l by simp
  finally have t: "take n s = takeWhile is_space s @ c # takeWhile is_space r"
    by (simp add: take_spaces)
  have "length s = spaces s + 1 + length r"
    using s l by (metis One_nat_def add.assoc length_Cons length_append plus_1_eq_Suc)
  with n spaces_le [of r] have "n \<le> length s" by simp
  with n t show ?thesis by blast
qed

lemma re_semicolons_Some:
  assumes "re_semicolons prev s = Some n"
  shows "2 \<le> n \<and> n \<le> length s \<and> take n s = takeWhile (\<lambda>c. c = CHR '';'') s"
proof -
  from assms have "n = length (takeWhile (\<lambda>c. c = CHR '';'') s)" "2 \<le> n"
    by (auto simp: re_semicolons_def Let_def split: if_splits)
  then show ?thesis
    using length_takeWhile_le [of "\<lambda>c. c = CHR '';''" s]
    by (simp add: takeWhile_eq_take [symmetric])
qed

lemma re_newlines_Some:
  assumes "re_newlines prev s = Some n"
  shows "1 \<le> n \<and> n \<le> length s \<and> take n s = takeWhile (\<lambda>c. c = newline) s"
proof -
  from assms have "n = length (takeWhile (\<lambda>c. c = newline) s)" "1 \<le> n"
    by (auto simp: re_newlines_def Let_def split: if_splits)
  then show ?thesis
    using length_takeWhile_le [of "\<lambda>c. c = newline" s]
    by (simp add: takeWhile_eq_take [symmetric])
qed

lemma re_function_Some:
  assumes "re_function prev s = Some n"
  shows "9 \<le> n \<and> n \<le> length s \<and> take n s = ''function'' @ takeWhile is_space (drop 8 s)"
proof -
  from assms have p: "prefix ''function'' s" and w: "1 \<le> spaces (drop 8 s)"
    and n: "n = 8 + spaces (drop 8 s)"
    by (auto simp: re_function_def split: if_splits)
  from p obtain r where s: "s = ''function'' @ r" by (auto simp: prefix_def)
  then have d: "drop 8 s = r" by simp
  have n': "n = length ''function'' + spaces r" using n d by simp
  have "take n s = ''function'' @ take (spaces r) r"
    unfolding n' s by (simp only: take_append) simp
  then have "take n s = ''function'' @ takeWhile is_space r" by (simp add: take_spaces)
  moreover have "n \<le> length s" using s n d spaces_le [of r] by simp
  ultimately show ?thesis using w n d by simp
qed

lemma re_comma_space_Some:
  assumes "re_comma_space prev s = Some n"
  shows "2 \<le> n \<and> n \<le> length s \<and> (\<exists>r. take n s = CHR '','' # takeWhile is_space r)"
proof -
  from assms obtain r where s: "s = CHR '','' # r" and w: "1 \<le> spaces r" and n: "n = 1 + spaces r"
    by (auto simp: re_comma_space_def split: list.splits if_splits)
  have "take n s = CHR '','' # takeWhile is_space r" using s n by (simp add: take_spaces)
  moreover have "n \<le> length s" using s n spaces_le [of r] by simp
  ultimately show ?thesis using w n by auto
qed

lemma find_sub_Some:
  "find_sub pat s = Some k \<Longrightarrow> k + length pat \<le> length s \<and> prefix pat (drop k s)"
proof (induction s arbitrary: k)
  case Nil
  then show ?case by (auto split: if_splits)
next
  case (Cons c cs)
  show ?case
  proof (cases "prefix pat (c # cs)")
    case True
    with Cons.prems have "k = 0" by simp
    with True show ?thesis by (auto dest: prefix_length_le)
  next
    case False
    with Cons.prems obtain j where j: "find_sub pat cs = Some j" and k: "k = Suc j" by auto
    from Cons.IH [OF j] k show ?thesis by simp
  qed
qed

lemma re_line_comment_Some:
  assumes "re_line_comment prev s = Some n"
  shows "2 \<le> n \<and> n \<le> length s"
proof -
  from assms have p: "prefix ''//'' s" and n: "n = 2 + length (takeWhile (\<lambda>c. c \<noteq> newline) (drop 2 s))"
    by (auto simp: re_line_comment_def split: if_splits)
  from p have "2 \<le> length s" by (auto dest: prefix_length_le)
  with n length_takeWhile_le [of "\<lambda>c. c \<noteq> newline" "drop 2 s"] show ?thesis by simp
qed

lemma re_block_comment_Some:
  assumes "re_block_comment prev s = Some n"
  shows "4 \<le> n \<and> n \<le> length s"
proof -
  from assms obtain k where p: "prefix ''/*'' s" and k: "find_sub ''*/'' (drop 2 s) = Some k"
    and n: "n = 2 + k + 2"
    by (auto simp: re_block_comment_def split: if_splits option.splits)
  from p have "2 \<le> length s" by (auto dest: prefix_length_le)
  moreover from find_sub_Some [OF k] have "k + 2 \<le> length s - 2" by simp
  ultimately show ?thesis using n by arith
qed

section \<open>Bracket counts through the fixed stages\<close>








lemma stage_operators_total_aux:
  "\<forall>op \<in> set ops. \<exists>c. compile_op op = Inr c \<Longrightarrow> \<exists>r'. stage_operators ops r = Inr r'"
  by (induction ops arbitrary: r) auto

lemma operators_compile: "\<forall>op \<in> set operators. \<exists>c. compile_op op = Inr c"
  by (simp add: operators_def backslash_def is_meta_def is_punct_def is_space_def)

lemma stage_operators_total: "\<exists>r'. stage_operators operators r = Inr r'"
  by (rule stage_operators_total_aux) (rule operators_compile)








section \<open>The license comment and the shape of Minify\<close>

lemma re_license_Some_prev: "re_license (Some p) s = None"
  by (simp add: re_license_def)

lemma FindString_license_inner: "FindString re_license (Some p) s = []"
  by (induction s arbitrary: p) (simp_all add: re_license_Some_prev)

lemma ReplaceAllString_license_inner: "ReplaceAllString re_license repl (Some p) s = s"
proof (induction s arbitrary: p)
  case Nil
  show ?case by simp
next
  case (Cons c cs)
  then show ?case
    by (simp add: ReplaceAllString_Cons_copy re_license_Some_prev)
qed

lemma re_license_Some:
  assumes "re_license prev s = Some n"
  shows "5 \<le> n \<and> n \<le> length s \<and> prev = None"
proof -
  from assms obtain k where p: "prefix ''/*!'' s" and k: "find_sub ''*/'' (drop 3 s) = Some k"
    and n: "n = 3 + k + 2" and "prev = None"
    by (auto simp: re_license_def split: if_splits option.splits)
  from p have "3 \<le> length s" by (auto dest: prefix_length_le)
  moreover from find_sub_Some [OF k] have "k + 2 \<le> length s - 3" by simp
  ultimately show ?thesis using n \<open>prev = None\<close> by arith
qed

lemma FindString_license:
  "FindString re_license None s = (case re_license None s of None \<Rightarrow> [] | Some n \<Rightarrow> take n s)"
proof (cases s)
  case Nil
  then show ?thesis by (simp add: re_license_def)
next
  case (Cons c cs)
  then show ?thesis
    by (simp add: FindString_license_inner split: option.splits)
qed

lemma ReplaceAllString_license:
  "ReplaceAllString re_license [] None s
     = (case re_license None s of None \<Rightarrow> s | Some n \<Rightarrow> drop n s)"
proof (cases "re_license None s")
  case None
  show ?thesis
  proof (cases s)
    case Nil
    then show ?thesis by (simp split: option.splits)
  next
    case (Cons c cs)
    with None have "ReplaceAllString re_license [] None (c # cs)
        = c # ReplaceAllString re_license [] (Some c) cs"
      by (intro ReplaceAllString_Cons_copy) simp
    with None Cons show ?thesis by (simp add: ReplaceAllString_license_inner)
  qed
next
  case (Some n)
  from re_license_Some [OF Some] obtain j c cs where n: "n = Suc j" and s: "s = c # cs"
    by (cases n; cases s) auto
  from Some n s have "ReplaceAllString re_license [] None (c # cs)
      = [] @ ReplaceAllString re_license [] (Some (last (c # take j cs))) (drop j cs)"
    by (intro ReplaceAllString_Cons_match) simp
  with Some n s show ?thesis by (simp add: ReplaceAllString_license_inner)
qed

lemma stage_license_eq:
  "stage_license pl s
     = (if pl then (case re_license None s of
                      None \<Rightarrow> ([], s)
                    | Some n \<Rightarrow> (take n s @ [newline], drop n s))
        else ([], s))"
proof (cases "re_license None s")
  case None
  then show ?thesis
    by (simp add: stage_license_def FindString_license)
next
  case (Some n)
  from re_license_Some [OF Some] have "take n s \<noteq> []" by auto
  with Some show ?thesis
    by (simp add: stage_license_def FindString_license ReplaceAllString_license Let_def)
qed

lemma stage_license_False: "stage_license False s = ([], s)"
  by (simp add: stage_license_def)

lemma stage_license_split:
  "\<exists>lic. (fst (stage_license pl s) = [] \<and> lic = [] \<or> fst (stage_license pl s) = lic @ [newline])
        \<and> s = lic @ snd (stage_license pl s)"
  by (cases "re_license None s") (auto simp: stage_license_eq)

text \<open>Minify with the renaming switched off, stage by stage.\<close>

lemma Minify_no_shorten:
  "Minify it (NewMinifier inp pl False)
     = (case stage_operators operators
               (stage_whitespace (stage_comments (snd (stage_license pl inp)))) of
          Inl e \<Rightarrow> Inl e
        | Inr r \<Rightarrow> Inr (fst (stage_license pl inp) @ stage_punct r))"
proof -
  obtain lic rest where sl: "stage_license pl inp = (lic, rest)" by (cases "stage_license pl inp")
  have "\<not> pl \<Longrightarrow> lic = []" using sl by (simp add: stage_license_def)
  then have e: "\<And>r. (if pl \<and> lic \<noteq> [] then lic @ r else r) = lic @ r" by auto
  show ?thesis
    by (simp add: Minify_def NewMinifier_def sl Let_def e split: sum.splits)
qed

lemma Minify_shorten:
  "Minify it (NewMinifier inp pl True)
     = (case stage_operators operators
               (stage_whitespace (stage_comments (snd (stage_license pl inp)))) of
          Inl e \<Rightarrow> Inl e
        | Inr r \<Rightarrow>
            (case shortenVariableNames it (NewMinifier inp pl True) (stage_punct r) of
               Inl e \<Rightarrow> Inl e
             | Inr (res, m') \<Rightarrow> Inr (fst (stage_license pl inp) @ res)))"
proof -
  obtain lic rest where sl: "stage_license pl inp = (lic, rest)" by (cases "stage_license pl inp")
  have "\<not> pl \<Longrightarrow> lic = []" using sl by (simp add: stage_license_def)
  then have e: "\<And>r. (if pl \<and> lic \<noteq> [] then lic @ r else r) = lic @ r" by auto
  have p: "preserveLicense (NewMinifier inp pl True) = pl" "shortenVars (NewMinifier inp pl True)"
    "input (NewMinifier inp pl True) = inp"
    by (simp_all add: NewMinifier_def)
  show ?thesis
    by (simp add: Minify_def p sl Let_def e split: sum.splits prod.splits)
qed






section \<open>Bracket counts and the basic example\<close>




text \<open>
  Claim C7. On the input of the example Minify returns \<open>functiontest(a,b){return a\+b;}\<close>:
  the operator loop writes the pattern fragment \<open>\+\<close>, backslash included, as the
  replacement. With all whitespace deleted the result differs from the expected text.
\<close>

theorem Minify_basic_example:
  "Minify insertion_order
     (NewMinifier (''function test(a, b) {'' @ [CHR 0x0A] @ ''  // comment'' @ [CHR 0x0A]
                   @ ''  return a + b;'' @ [CHR 0x0A] @ ''}'') False False)
     = Inr (''functiontest(a,b){return a'' @ [CHR 0x5C] @ ''+b;}'')
   \<and> strip_whitespace (''functiontest(a,b){return a'' @ [CHR 0x5C] @ ''+b;}'')
       \<noteq> strip_whitespace ''function test(a,b){return a+b;}''"
  by code_simp

section \<open>The scan with a closure\<close>

declare ReplaceAllStringFunc.simps(2) [simp del]

lemma ReplaceAllStringFunc_Cons_match:
  "re prev (c # cs) = Some (Suc n) \<Longrightarrow>
   ReplaceAllStringFunc re f st prev (c # cs)
     = (case f st (c # take n cs) of
          Inl e \<Rightarrow> Inl e
        | Inr (r, st') \<Rightarrow>
            (case ReplaceAllStringFunc re f st' (Some (last (c # take n cs))) (drop n cs) of
               Inl e \<Rightarrow> Inl e
             | Inr (out, st'') \<Rightarrow> Inr (r @ out, st'')))"
  by (simp add: ReplaceAllStringFunc.simps(2))

lemma ReplaceAllStringFunc_Cons_copy:
  "(\<And>n. re prev (c # cs) \<noteq> Some (Suc n)) \<Longrightarrow>
   ReplaceAllStringFunc re f st prev (c # cs)
     = (case ReplaceAllStringFunc re f st (Some c) cs of
          Inl e \<Rightarrow> Inl e
        | Inr (out, st') \<Rightarrow> Inr (c # out, st'))"
  by (cases "re prev (c # cs)") (auto simp: ReplaceAllStringFunc.simps(2) split: nat.splits)

text \<open>
  An invariant rule for the scan with a closure: when the closure keeps an invariant of
  the captured state and returns replacement texts with bytes of a given kind, the scan
  returns, keeps the invariant, and its output has bytes of the text or of that kind.
\<close>

lemma ReplaceAllStringFunc_inv:
  assumes step: "\<And>st t. I st \<Longrightarrow> set t \<subseteq> S \<Longrightarrow> t \<noteq> []
                   \<Longrightarrow> \<exists>r st'. f st t = Inr (r, st') \<and> I st' \<and> set r \<subseteq> set t \<union> Q"
    and "I st" and "set s \<subseteq> S"
  shows "\<exists>out st'. ReplaceAllStringFunc re f st prev s = Inr (out, st') \<and> I st'
           \<and> set out \<subseteq> set s \<union> Q"
  using assms(2,3)
proof (induction s arbitrary: st prev rule: length_induct)
  case (1 s)
  show ?case
  proof (cases s)
    case Nil
    with 1 show ?thesis by simp
  next
    case (Cons c cs)
    show ?thesis
    proof (cases "\<exists>n. re prev (c # cs) = Some (Suc n)")
      case True
      then obtain n where m: "re prev (c # cs) = Some (Suc n)" ..
      define p' where "p' = Some (last (c # take n cs))"
      have "set (c # take n cs) \<subseteq> S"
        using 1(3) Cons by (auto dest: in_set_takeD)
      with step [OF 1(2)] obtain r st' where f: "f st (c # take n cs) = Inr (r, st')"
        and i: "I st'" and q: "set r \<subseteq> set (c # take n cs) \<union> Q" by blast
      have tk: "set (take n cs) \<subseteq> set cs" by (rule set_take_subset)
      have d: "set (drop n cs) \<subseteq> set cs" by (rule set_drop_subset)
      have "length (drop n cs) < length s" using Cons by simp
      moreover have "set (drop n cs) \<subseteq> S" using d 1(3) Cons by auto
      ultimately obtain out st'' where
        r: "ReplaceAllStringFunc re f st' p' (drop n cs) = Inr (out, st'')"
        and i': "I st''" and o: "set out \<subseteq> set (drop n cs) \<union> Q"
        using 1(1) i by blast
      have "ReplaceAllStringFunc re f st prev (c # cs)
          = (case f st (c # take n cs) of
               Inl e \<Rightarrow> Inl e
             | Inr (r, st') \<Rightarrow>
                 (case ReplaceAllStringFunc re f st' p' (drop n cs) of
                    Inl e \<Rightarrow> Inl e
                  | Inr (out, st'') \<Rightarrow> Inr (r @ out, st'')))"
        using m unfolding p'_def by (rule ReplaceAllStringFunc_Cons_match)
      then have "ReplaceAllStringFunc re f st prev (c # cs) = Inr (r @ out, st'')"
        by (simp add: f r)
      moreover have "set (r @ out) \<subseteq> set (c # cs) \<union> Q" using q o d tk by auto
      ultimately show ?thesis using Cons i' by blast
    next
      case False
      then have eq: "ReplaceAllStringFunc re f st prev (c # cs)
          = (case ReplaceAllStringFunc re f st (Some c) cs of
               Inl e \<Rightarrow> Inl e | Inr (out, st') \<Rightarrow> Inr (c # out, st'))"
        by (intro ReplaceAllStringFunc_Cons_copy) blast
      have "length cs < length s" using Cons by simp
      moreover have "set cs \<subseteq> S" using 1(3) Cons by auto
      ultimately obtain out st' where
        r: "ReplaceAllStringFunc re f st (Some c) cs = Inr (out, st')"
        and i': "I st'" and o: "set out \<subseteq> set cs \<union> Q"
        using 1(1,2) by blast
      have "ReplaceAllStringFunc re f st prev (c # cs) = Inr (c # out, st')"
        by (simp add: eq r)
      moreover have "set (c # out) \<subseteq> set (c # cs) \<union> Q" using o by auto
      ultimately show ?thesis using Cons i' by blast
    qed
  qed
qed

lemma strings_Replace_set: "set (strings_Replace s old new) \<subseteq> set s \<union> set new"
proof (induction s old new rule: strings_Replace.induct)
  case (1 old new)
  show ?case by simp
next
  case (2 c cs old new)
  show ?case
  proof (cases "old \<noteq> [] \<and> prefix old (c # cs)")
    case True
    with 2(1) have "set (strings_Replace (drop (length old) (c # cs)) old new)
        \<subseteq> set (drop (length old) (c # cs)) \<union> set new" by simp
    moreover have "set (drop (length old) (c # cs)) \<subseteq> set (c # cs)" by (rule set_drop_subset)
    ultimately show ?thesis using True by auto
  next
    case False
    with 2(2) have "set (strings_Replace cs old new) \<subseteq> set cs \<union> set new" by simp
    with False show ?thesis by auto
  qed
qed

lemma restore_loop_set:
  "set (restore_loop tbl code) \<subseteq> set code \<union> (\<Union>(p, v) \<in> set tbl. set v)"
proof (induction tbl arbitrary: code)
  case Nil
  show ?case by simp
next
  case (Cons e tbl)
  obtain p v where e: "e = (p, v)" by (cases e)
  have "set (restore_loop tbl (strings_Replace code p v))
      \<subseteq> set (strings_Replace code p v) \<union> (\<Union>(p, v) \<in> set tbl. set v)"
    by (rule Cons.IH)
  with strings_Replace_set [of code p v] e show ?case by auto
qed

section \<open>The declaration pattern\<close>

lemma is_word_ident_char: "is_word c \<Longrightarrow> is_ident_char c"
  by (simp add: is_ident_char_def)


lemma ident_end_Some:
  "ident_end s k = Some j \<Longrightarrow> 1 \<le> j \<and> j \<le> k \<and> boundary_at s j
     \<and> (\<forall>j'. j < j' \<and> j' \<le> k \<longrightarrow> \<not> boundary_at s j')"
proof (induction k)
  case 0
  then show ?case by simp
next
  case (Suc k)
  show ?case
  proof (cases "boundary_at s (Suc k)")
    case True
    with Suc.prems have "j = Suc k" by (simp add: boundary_at_def)
    with True show ?thesis by auto
  next
    case False
    with Suc.prems have "ident_end s k = Some j" by (simp add: boundary_at_def)
    from Suc.IH [OF this] False show ?thesis
      by (auto simp: le_Suc_eq)
  qed
qed

lemma next_char_drop: "j < length s \<Longrightarrow> next_char (drop j s) = Some (s ! j)"
  by (simp add: next_char_def Cons_nth_drop_Suc [symmetric])

lemma next_char_drop_end: "length s \<le> j \<Longrightarrow> next_char (drop j s) = None"
  by (simp add: next_char_def)

lemma last_take:
  assumes "0 < j" and "j \<le> length s"
  shows "last (take j s) = s ! (j - 1)"
proof -
  from assms have "take j s \<noteq> []" by auto
  then have "last (take j s) = take j s ! (length (take j s) - 1)" by (rule last_conv_nth)
  also have "\<dots> = s ! (j - 1)" using assms by (simp add: min_absorb2)
  finally show ?thesis .
qed

text \<open>
  The identifier group never ends with \<open>$\<close>: behind a \<open>$\<close> that is followed by a word
  byte, the end of that run of word bytes is a later word boundary inside the run of
  identifier bytes, and the greedy group prefers it.
\<close>

lemma ident_end_word:
  assumes e: "ident_end s k = Some j" and k: "k = length (takeWhile is_ident_char s)"
  shows "is_word (last (take j s))"
proof (rule ccontr)
  assume nw: "\<not> is_word (last (take j s))"
  from ident_end_Some [OF e] have j: "1 \<le> j" "j \<le> k" and b: "boundary_at s j"
    and mx: "\<And>j'. j < j' \<Longrightarrow> j' \<le> k \<Longrightarrow> \<not> boundary_at s j'" by auto
  have kl: "k \<le> length s" using k by (simp add: length_takeWhile_le)
  from b nw obtain x where nx: "next_char (drop j s) = Some x" and wx: "is_word x"
    by (auto simp: boundary_at_def word_boundary_def split: option.splits)
  then have "drop j s \<noteq> []" by (auto simp: next_char_def)
  then have jl: "j < length s" by simp
  with nx have x: "x = s ! j" by (simp add: next_char_drop)
  define w where "w = length (takeWhile is_word (drop j s))"
  define j' where "j' = j + w"
  have w0: "0 < w"
    using wx x jl by (cases "drop j s") (auto simp: w_def Cons_nth_drop_Suc [symmetric])
  have wl: "j' \<le> length s"
    using length_takeWhile_le [of is_word "drop j s"] jl by (simp add: j'_def w_def)
  have allw: "\<And>i. j \<le> i \<Longrightarrow> i < j' \<Longrightarrow> is_word (s ! i)"
  proof -
    fix i assume "j \<le> i" "i < j'"
    then have "i - j < length (takeWhile is_word (drop j s))" by (simp add: j'_def w_def)
    then have "is_word (takeWhile is_word (drop j s) ! (i - j))"
      by (meson nth_mem set_takeWhileD)
    moreover have "takeWhile is_word (drop j s) ! (i - j) = drop j s ! (i - j)"
      using \<open>i - j < length (takeWhile is_word (drop j s))\<close> by (rule takeWhile_nth)
    ultimately show "is_word (s ! i)" using \<open>j \<le> i\<close> wl \<open>i < j'\<close> by simp
  qed
  have idall: "\<And>i. i < j' \<Longrightarrow> is_ident_char (s ! i)"
  proof -
    fix i assume i: "i < j'"
    show "is_ident_char (s ! i)"
    proof (cases "i < j")
      case True
      then have "i < length (takeWhile is_ident_char s)" using j k by simp
      then show ?thesis by (metis nth_mem set_takeWhileD takeWhile_nth)
    next
      case False
      then show ?thesis using allw i by (simp add: is_word_ident_char)
    qed
  qed
  have "j' \<le> k"
  proof (rule ccontr)
    assume "\<not> j' \<le> k"
    then have lt: "k < j'" by simp
    then have "k < length s" using wl by simp
    then have "\<not> is_ident_char (s ! k)"
      using k by (metis nth_length_takeWhile)
    with idall [OF lt] show False by simp
  qed
  moreover have "j < j'" using w0 by (simp add: j'_def)
  moreover have "boundary_at s j'"
  proof -
    have l: "is_word (last (take j' s))"
      using allw [of "j' - 1"] wl \<open>j < j'\<close> by (simp add: last_take)
    have "next_char (drop j' s) = None \<or> (\<exists>y. next_char (drop j' s) = Some y \<and> \<not> is_word y)"
    proof (cases "j' < length s")
      case True
      have d: "drop j' s = dropWhile is_word (drop j s)"
        by (simp add: j'_def w_def dropWhile_eq_drop add.commute)
      from True have "drop j' s \<noteq> []" by simp
      with d have "dropWhile is_word (drop j s) \<noteq> []" by simp
      then have "\<not> is_word (hd (dropWhile is_word (drop j s)))" by (rule hd_dropWhile)
      with d have "\<not> is_word (hd (drop j' s))" by simp
      with True show ?thesis by (cases "drop j' s") (auto simp: next_char_def)
    next
      case False
      then show ?thesis by (simp add: next_char_def)
    qed
    with l show ?thesis by (auto simp: boundary_at_def word_boundary_def)
  qed
  ultimately show False using mx by blast
qed

lemma re_decl_sub_Some:
  assumes "re_decl_sub prev s = Some (n, g1, g2)"
  shows "g1 \<in> set decl_keywords \<and> good_ident g2"
proof -
  from assms obtain kw c r'' j where
    kw: "find (\<lambda>k. prefix k s) decl_keywords = Some kw"
    and r': "drop (spaces (drop (length kw) s)) (drop (length kw) s) = c # r''"
    and e: "ident_end (c # r'') (length (takeWhile is_ident_char (c # r''))) = Some j"
    and g: "g1 = kw" "g2 = take j (c # r'')"
    by (auto simp: re_decl_sub_def Let_def split: if_splits option.splits list.splits)
  let ?r = "c # r''"
  from kw have k: "g1 \<in> set decl_keywords" using g
    by (auto simp: find_Some_iff)
  from ident_end_Some [OF e] have j: "1 \<le> j" "j \<le> length (takeWhile is_ident_char ?r)" by auto
  then have "take j ?r = take j (takeWhile is_ident_char ?r)"
    by (metis takeWhile_eq_take take_take min.absorb1)
  then have "set (take j ?r) \<subseteq> set (takeWhile is_ident_char ?r)"
    by (metis set_take_subset)
  then have a: "list_all is_ident_char g2"
    using g by (auto simp: list_all_iff dest: set_takeWhileD)
  have n: "g2 \<noteq> []" using j g by auto
  from ident_end_word [OF e] have "is_word (last g2)" using g by simp
  with a n k show ?thesis by (simp add: good_ident_def)
qed

lemma FindStringSubmatch_cases:
  "FindStringSubmatch re prev s = []
   \<or> (\<exists>p u n g1 g2. re p u = Some (n, g1, g2) \<and> FindStringSubmatch re prev s = [take n u, g1, g2])"
proof (induction s arbitrary: prev)
  case Nil
  show ?case by simp
next
  case (Cons c cs)
  show ?case
  proof (cases "re prev (c # cs)")
    case None
    with Cons [of "Some c"] show ?thesis by simp
  next
    case (Some a)
    obtain n g1 g2 where "a = (n, g1, g2)" by (cases a)
    with Some show ?thesis by auto
  qed
qed

section \<open>The closures of the renamer\<close>

lemma update_absent: "k \<notin> fst ` set al \<Longrightarrow> AList.update k v al = al @ [(k, v)]"
  by (induction al) auto

lemma alphabet_letters: "i < 26 \<Longrightarrow> is_letter (alphabet ! i)"
proof -
  assume "i < 26"
  then have "alphabet ! i \<in> set alphabet" by (simp add: alphabet_length)
  then show ?thesis by (auto simp: alphabet_def is_letter_def)
qed

lemma is_digit_word: "is_digit c \<Longrightarrow> is_word c"
  by (simp add: is_word_def)

lemma nth_name_word: "c \<in> set (nth_name N) \<Longrightarrow> is_word c"
  using fmt_d_digits [of "N div 26"] alphabet_letters [of "N mod 26"]
  by (auto simp: nth_name_def is_word_def split: if_splits)

lemma nth_name_nonempty: "nth_name N \<noteq> []"
  by (simp add: nth_name_def)

lemma placeholder_of_word: "c \<in> set (placeholder_of n) \<Longrightarrow> is_word c"
  using fmt_d_digits [of n]
  by (auto simp: placeholder_of_def is_word_def is_letter_def)

lemma placeholder_of_inj: "placeholder_of a = placeholder_of b \<Longrightarrow> a = b"
  by (auto simp: placeholder_of_def dest: fmt_d_inj)

lemma keyword_word: "g \<in> set decl_keywords \<Longrightarrow> c \<in> set g \<Longrightarrow> is_word c"
  by (auto simp: decl_keywords_def is_word_def is_letter_def)

lemma decl_inv_values:
  assumes "decl_inv m" and "map_of (varMap m) k = Some v"
  shows "\<exists>i. v = nth_name i"
proof -
  from assms(1) obtain ks where vm: "varMap m = zip ks (map nth_name [0..<length ks])"
    by (auto simp: decl_inv_def)
  from assms(2) have "(k, v) \<in> set (varMap m)" by (rule map_of_SomeD)
  with vm have "v \<in> set (map nth_name [0..<length ks])" by (auto dest: set_zip_rightD)
  then show ?thesis by auto
qed

lemma declare_fn_step:
  assumes "decl_inv m"
  shows "\<exists>r m'. declare_fn m t = Inr (r, m') \<and> decl_inv m' \<and> set r \<subseteq> set t \<union> name_chars"
proof -
  let ?parts = "FindStringSubmatch re_decl_sub None t"
  from FindStringSubmatch_cases [of re_decl_sub None t]
  consider (none) "?parts = []"
    | (some) p u n g1 g2 where "re_decl_sub p u = Some (n, g1, g2)" "?parts = [take n u, g1, g2]"
    by blast
  then show ?thesis
  proof cases
    case none
    then have "declare_fn m t = Inr (t, m)" by (simp add: declare_fn_def)
    with assms show ?thesis by auto
  next
    case some
    from re_decl_sub_Some [OF some(1)] have g1: "g1 \<in> set decl_keywords" and g2: "good_ident g2"
      by simp_all
    note pl = some(2)
    from assms obtain ks where vm: "varMap m = zip ks (map nth_name [0..<length ks])"
      and vc: "varCounter m = length ks" and dk: "distinct ks" and gk: "list_all good_ident ks"
      by (auto simp: decl_inv_def)
    show ?thesis
    proof (cases "map_of (varMap m) g2")
      case None
      then have nk: "g2 \<notin> set ks" using vm by (simp add: map_of_zip_is_None)
      then have nf: "g2 \<notin> fst ` set (varMap m)" using vm by (auto dest: set_zip_leftD)
      define name where "name = nth_name (length ks)"
      define m' where "m' = m\<lparr>varCounter := Suc (length ks), varMap := varMap m @ [(g2, name)]\<rparr>"
      have gen: "generateVarName m = Inr (name, m\<lparr>varCounter := Suc (length ks)\<rparr>)"
        by (simp add: generateVarName_eq vc name_def)
      have "map_of (varMap m) g2 = None" using nf by (simp add: map_of_eq_None_iff)
      then have mg: "map_get (varMap m') g2 = name"
        by (simp add: m'_def map_get_def map_add_def)
      have d: "declare_fn m t = Inr (g1 @ '' '' @ name, m')"
        using None mg
        by (simp add: declare_fn_def pl Let_def gen update_absent [OF nf] m'_def)
      have "varMap m' = zip (ks @ [g2]) (map nth_name [0..<length (ks @ [g2])])"
        by (simp add: m'_def vm name_def)
      moreover have "varCounter m' = length (ks @ [g2])" by (simp add: m'_def)
      moreover have "distinct (ks @ [g2])" using dk nk by simp
      moreover have "list_all good_ident (ks @ [g2])" using gk g2 by simp
      ultimately have i: "decl_inv m'" unfolding decl_inv_def by blast
      have "set (g1 @ '' '' @ name) \<subseteq> name_chars"
        using g1 by (auto simp: name_chars_def name_def dest: keyword_word nth_name_word)
      with d i show ?thesis by auto
    next
      case (Some v)
      from decl_inv_values [OF assms Some] obtain i where v: "v = nth_name i" ..
      have d: "declare_fn m t = Inr (g1 @ '' '' @ v, m)"
        using Some by (simp add: declare_fn_def pl Let_def map_get_def)
      have "set (g1 @ '' '' @ v) \<subseteq> name_chars"
        using g1 v by (auto simp: name_chars_def dest: keyword_word nth_name_word)
      with d assms show ?thesis by auto
    qed
  qed
qed

lemma shield_fn_step:
  assumes "shield_inv S tbl" and "set t \<subseteq> S"
  shows "\<exists>r tbl'. shield_fn tbl t = Inr (r, tbl') \<and> shield_inv S tbl' \<and> set r \<subseteq> set t \<union> name_chars"
proof -
  from assms(1) obtain lits where tbl: "tbl = zip (map placeholder_of [0..<length lits]) lits"
    and ls: "list_all (\<lambda>l. set l \<subseteq> S) lits"
    by (auto simp: shield_inv_def)
  have len: "length tbl = length lits" using tbl by simp
  have "placeholder_of (length lits) \<notin> set (map placeholder_of [0..<length lits])"
    by (auto dest: placeholder_of_inj)
  then have nf: "placeholder_of (length lits) \<notin> fst ` set tbl"
    using tbl by (auto dest: set_zip_leftD)
  have s: "shield_fn tbl t = Inr (placeholder_of (length lits), tbl @ [(placeholder_of (length lits), t)])"
    using nf by (simp add: shield_fn_def Let_def len update_absent)
  have "tbl @ [(placeholder_of (length lits), t)]
      = zip (map placeholder_of [0..<length (lits @ [t])]) (lits @ [t])"
    using tbl by simp
  moreover have "list_all (\<lambda>l. set l \<subseteq> S) (lits @ [t])" using ls assms(2) by simp
  ultimately have "shield_inv S (tbl @ [(placeholder_of (length lits), t)])"
    unfolding shield_inv_def by blast
  moreover have "set (placeholder_of (length lits)) \<subseteq> name_chars"
    by (auto simp: name_chars_def dest: placeholder_of_word)
  ultimately show ?thesis using s by auto
qed

lemma compile_ident_total:
  "list_all is_ident_char k \<Longrightarrow> \<exists>items. compile_ident k = Inr items"
  by (induction k) (auto simp: is_ident_char_def)

lemma usage_loop_total:
  assumes "\<forall>(k, v) \<in> set tbl. list_all is_ident_char k \<and> set v \<subseteq> Q"
  shows "\<exists>out. usage_loop tbl code = Inr out \<and> set out \<subseteq> set code \<union> Q"
  using assms
proof (induction tbl arbitrary: code)
  case Nil
  show ?case by simp
next
  case (Cons e tbl)
  obtain k v where e: "e = (k, v)" by (cases e)
  with Cons.prems have k: "list_all is_ident_char k" and v: "set v \<subseteq> Q" by auto
  from compile_ident_total [OF k] obtain items where c: "compile_ident k = Inr items" ..
  let ?code = "ReplaceAllString (re_usage items) v None code"
  from Cons.prems have "\<forall>(k, v) \<in> set tbl. list_all is_ident_char k \<and> set v \<subseteq> Q" by simp
  from Cons.IH [OF this, of ?code] obtain out where
    o: "usage_loop tbl ?code = Inr out" "set out \<subseteq> set ?code \<union> Q" by blast
  have "set ?code \<subseteq> set code \<union> set v" by (rule ReplaceAllString_set)
  with o v e c show ?case by auto
qed

section \<open>Line feeds and lengths through the fixed stages\<close>





text \<open>The lengths through the fixed stages.\<close>

lemma length_stage_comments: "length (stage_comments s) \<le> length s"
proof -
  have 1: "\<And>s. length (ReplaceAllString re_line_comment [] None s) \<le> length s"
    by (rule ReplaceAllString_length) (auto dest: re_line_comment_Some)
  have 2: "\<And>s. length (ReplaceAllString re_block_comment [] None s) \<le> length s"
    by (rule ReplaceAllString_length) (auto dest: re_block_comment_Some)
  show ?thesis
    unfolding stage_comments_def Let_def using 1 2 by (meson order_trans)
qed

lemma length_stage_whitespace: "length (stage_whitespace s) \<le> length s"
proof -
  have 1: "\<And>s. length (ReplaceAllString re_trim [] None s) \<le> length s"
    by (rule ReplaceAllString_length) (auto dest: re_trim_Some)
  have 2: "\<And>s. length (ReplaceAllString re_multi_space '' '' None s) \<le> length s"
    by (rule ReplaceAllString_length) (auto dest: re_multi_space_Some)
  show ?thesis
    unfolding stage_whitespace_def Let_def using 1 2 by (meson order_trans)
qed

lemma set_stage_whitespace: "set (stage_whitespace s) \<subseteq> set s \<union> {CHR '' ''}"
proof -
  have "set (ReplaceAllString re_trim [] None s) \<subseteq> set s"
    using ReplaceAllString_set [of re_trim "[]" None s] by simp
  moreover have "set (ReplaceAllString re_multi_space '' '' None (ReplaceAllString re_trim [] None s))
      \<subseteq> set (ReplaceAllString re_trim [] None s) \<union> {CHR '' ''}"
    using ReplaceAllString_set [of re_multi_space "'' ''" None] by simp
  ultimately show ?thesis unfolding stage_whitespace_def Let_def by blast
qed

lemma length_re_around:
  "length repl \<le> 1 \<Longrightarrow> length (ReplaceAllString (re_around c) repl prev s) \<le> length s"
proof (rule ReplaceAllString_length)
  fix prev s n
  assume "length repl \<le> 1" "re_around c prev s = Some n"
  from re_around_Some [OF this(2)] this(1) show "length repl \<le> n \<and> n \<le> length s" by auto
qed

lemma re_around_absent: "c \<notin> set s \<Longrightarrow> ReplaceAllString (re_around c) repl prev s = s"
proof (rule ReplaceAllString_no_match)
  fix prev t
  assume c: "c \<notin> set s" and t: "set t \<subseteq> set s"
  show "re_around c prev t = None"
  proof (cases "re_around c prev t")
    case None
    then show ?thesis .
  next
    case (Some n)
    from re_around_Some [OF Some] obtain r where
      "take n t = takeWhile is_space t @ c # takeWhile is_space r" by blast
    then have "c \<in> set (take n t)" by simp
    then have "c \<in> set t" by (rule in_set_takeD)
    with c t show ?thesis by blast
  qed
qed

text \<open>
  The operator loop does not lengthen a text that has none of the four operators whose
  table entry is two bytes long.
\<close>


lemma stage_operators_length_aux:
  assumes "stage_operators ops r = Inr r'"
    and "set r \<inter> long_ops = {}"
    and "\<forall>op \<in> set ops. (\<forall>c. compile_op op = Inr c \<longrightarrow> c \<in> long_ops)
                        \<or> (length op \<le> 1 \<and> set op \<inter> long_ops = {})"
  shows "length r' \<le> length r \<and> set r' \<inter> long_ops = {}"
  using assms
proof (induction ops arbitrary: r)
  case Nil
  then show ?case by simp
next
  case (Cons op ops)
  from Cons.prems(1) obtain c where c: "compile_op op = Inr c"
    and rest: "stage_operators ops (ReplaceAllString (re_around c) op None r) = Inr r'"
    by (auto split: sum.splits)
  let ?r = "ReplaceAllString (re_around c) op None r"
  have step: "length ?r \<le> length r \<and> set ?r \<inter> long_ops = {}"
  proof (cases "c \<in> long_ops")
    case True
    with Cons.prems(2) have "c \<notin> set r" by blast
    then have "?r = r" by (rule re_around_absent)
    with Cons.prems(2) show ?thesis by simp
  next
    case False
    with Cons.prems(3) c have l: "length op \<le> 1" and o: "set op \<inter> long_ops = {}" by auto
    have "set ?r \<subseteq> set r \<union> set op" by (rule ReplaceAllString_set)
    with o Cons.prems(2) have "set ?r \<inter> long_ops = {}" by blast
    with length_re_around [OF l] show ?thesis by blast
  qed
  from Cons.prems(3) have "\<forall>op \<in> set ops. (\<forall>c. compile_op op = Inr c \<longrightarrow> c \<in> long_ops)
                        \<or> (length op \<le> 1 \<and> set op \<inter> long_ops = {})" by simp
  from Cons.IH [OF rest _ this] step show ?case by auto
qed

lemma operators_long_or_short:
  "\<forall>op \<in> set operators. (\<forall>c. compile_op op = Inr c \<longrightarrow> c \<in> long_ops)
                        \<or> (length op \<le> 1 \<and> set op \<inter> long_ops = {})"
  by (simp add: operators_def long_ops_def backslash_def is_punct_def)

lemma length_stage_punct: "length (stage_punct s) \<le> length s"
proof -
  have a: "\<And>c s. length (ReplaceAllString (re_around c) [c] None s) \<le> length s"
    by (rule length_re_around) simp
  have 1: "\<And>s. length (ReplaceAllString re_semicolons '';'' None s) \<le> length s"
    by (rule ReplaceAllString_length) (auto dest: re_semicolons_Some)
  have 2: "\<And>s. length (ReplaceAllString re_function ''function'' None s) \<le> length s"
    by (rule ReplaceAllString_length) (auto dest: re_function_Some)
  have 3: "\<And>s. length (ReplaceAllString re_newlines [] None s) \<le> length s"
    by (rule ReplaceAllString_length) (auto dest: re_newlines_Some)
  have 4: "\<And>s. length (ReplaceAllString re_comma_space '','' None s) \<le> length s"
    by (rule ReplaceAllString_length) (auto dest: re_comma_space_Some)
  show ?thesis
    unfolding stage_punct_def Let_def
    by (meson a 1 2 3 4 order_trans)
qed

section \<open>The renamer returns\<close>

lemma find_sub_first:
  assumes "pat \<noteq> []" and "\<forall>i < length u. \<not> prefix pat (drop i (u @ pat @ v))"
  shows "find_sub pat (u @ pat @ v) = Some (length u)"
  using assms(2)
proof (induction u)
  case Nil
  from assms(1) obtain c cs where "pat @ v = c # cs" by (cases pat) auto
  moreover have "prefix pat (pat @ v)" by simp
  ultimately show ?case by simp
next
  case (Cons a u)
  from Cons.prems have "\<not> prefix pat ((a # u) @ pat @ v)" by force
  moreover have "\<forall>i < length u. \<not> prefix pat (drop i (u @ pat @ v))"
  proof (intro allI impI)
    fix i assume "i < length u"
    then have "Suc i < length (a # u)" by simp
    with Cons.prems have "\<not> prefix pat (drop (Suc i) ((a # u) @ pat @ v))" by blast
    then show "\<not> prefix pat (drop i (u @ pat @ v))" by simp
  qed
  ultimately show ?case using Cons.IH by simp
qed


lemma close_first:
  assumes "\<not> sublist ''*/'' (body @ ''*'')"
  shows "\<forall>i < length body. \<not> prefix ''*/'' (drop i (body @ ''*/'' @ rest))"
proof (intro allI impI notI)
  fix i assume i: "i < length body" and p: "prefix ''*/'' (drop i (body @ ''*/'' @ rest))"
  from i obtain x d where d: "drop i body = x # d"
    by (cases "drop i body") auto
  have "drop i (body @ ''*/'' @ rest) = x # d @ ''*/'' @ rest" using i d by simp
  with p have p': "prefix ''*/'' (x # d @ ''*/'' @ rest)" by (simp only:)
  then have x: "x = CHR ''*''" by simp
  have "prefix ''*/'' (x # d @ ''*'')"
  proof (cases d)
    case Nil
    with p' show ?thesis by simp
  next
    case (Cons y d')
    with p' x show ?thesis by simp
  qed
  then have "sublist ''*/'' (drop i body @ ''*'')" using d by (simp add: prefix_imp_sublist)
  then obtain ps ss where "drop i body @ ''*'' = ps @ ''*/'' @ ss"
    unfolding sublist_def by blast
  then have "take i body @ drop i body @ ''*'' = (take i body @ ps) @ ''*/'' @ ss"
    by simp
  then have "sublist ''*/'' (take i body @ drop i body @ ''*'')"
    unfolding sublist_def by blast
  then have "sublist ''*/'' (body @ ''*'')" by (metis append_assoc append_take_drop_id)
  with assms show False by simp
qed

lemma re_license_marked:
  assumes "\<not> sublist ''*/'' (body @ ''*'')"
  shows "re_license None (''/*!'' @ body @ ''*/'' @ rest) = Some (3 + length body + 2)"
proof -
  have "find_sub ''*/'' (body @ ''*/'' @ rest) = Some (length body)"
    by (rule find_sub_first) (simp, rule close_first [OF assms])
  then show ?thesis by (simp add: re_license_def)
qed

lemma stage_license_marked:
  assumes "\<not> sublist ''*/'' (body @ ''*'')"
  shows "stage_license True (''/*!'' @ body @ ''*/'' @ rest)
           = (''/*!'' @ body @ ''*/'' @ [newline], rest)"
proof -
  define lic where "lic = ''/*!'' @ body @ ''*/''"
  have "re_license None (lic @ rest) = Some (length lic)"
    using re_license_marked [OF assms, of rest] by (simp add: lic_def)
  then have "stage_license True (lic @ rest) = (lic @ [newline], rest)"
    by (simp add: stage_license_eq)
  then show ?thesis by (simp add: lic_def)
qed


lemma is_range_set: "is_range f \<Longrightarrow> set (f xs) = set xs"
  by (metis is_range_def set_mset_mset)

lemma decl_inv_NewMinifier: "decl_inv (NewMinifier inp pl sv)"
  unfolding decl_inv_def by (rule exI [of _ "[]"]) (simp add: NewMinifier_def)

lemma decl_inv_entries:
  assumes "decl_inv m" and "(k, v) \<in> set (varMap m)"
  shows "good_ident k \<and> (\<exists>i. v = nth_name i)"
proof -
  from assms(1) obtain ks where vm: "varMap m = zip ks (map nth_name [0..<length ks])"
    and gk: "list_all good_ident ks"
    by (auto simp: decl_inv_def)
  from assms(2) vm have "k \<in> set ks" "v \<in> set (map nth_name [0..<length ks])"
    by (auto dest: set_zip_leftD set_zip_rightD)
  with gk show ?thesis by (auto simp: list_all_iff)
qed

lemma shield_inv_values:
  assumes "shield_inv S tbl" and "(p, v) \<in> set tbl"
  shows "set v \<subseteq> S"
proof -
  from assms(1) obtain lits where tbl: "tbl = zip (map placeholder_of [0..<length lits]) lits"
    and ls: "list_all (\<lambda>l. set l \<subseteq> S) lits"
    by (auto simp: shield_inv_def)
  from assms(2) tbl have "v \<in> set lits" by (auto dest: set_zip_rightD)
  with ls show ?thesis by (auto simp: list_all_iff)
qed

lemma shortenVariableNames_total:
  assumes "well_formed it"
  shows "\<exists>out m'. shortenVariableNames it (NewMinifier inp pl sv) code = Inr (out, m')
           \<and> set out \<subseteq> set code \<union> name_chars"
proof -
  have "shield_inv (set code) []"
    unfolding shield_inv_def by (rule exI [of _ "[]"]) simp
  with ReplaceAllStringFunc_inv [where I = "shield_inv (set code)" and f = shield_fn
      and S = "set code" and Q = name_chars and st = "[]" and s = code and re = re_string
      and prev = None]
  obtain code1 tbl where
    s1: "ReplaceAllStringFunc re_string shield_fn [] None code = Inr (code1, tbl)"
    and i1: "shield_inv (set code) tbl" and c1: "set code1 \<subseteq> set code \<union> name_chars"
    using shield_fn_step by blast
  from ReplaceAllStringFunc_inv [where I = decl_inv and f = declare_fn
      and S = UNIV and Q = name_chars and st = "NewMinifier inp pl sv" and s = code1
      and re = re_decl and prev = None]
  obtain code2 m2 where
    s2: "ReplaceAllStringFunc re_decl declare_fn (NewMinifier inp pl sv) None code1 = Inr (code2, m2)"
    and i2: "decl_inv m2" and c2: "set code2 \<subseteq> set code1 \<union> name_chars"
    using declare_fn_step decl_inv_NewMinifier by blast
  from assms have rv: "set (range_varMap it (varMap m2)) = set (varMap m2)"
    and rs: "set (range_stringLiterals it tbl) = set tbl"
    by (simp_all add: well_formed_def is_range_set)
  have "\<forall>(k, v) \<in> set (range_varMap it (varMap m2)). list_all is_ident_char k \<and> set v \<subseteq> name_chars"
    using decl_inv_entries [OF i2] rv
    by (auto simp: good_ident_def name_chars_def dest: nth_name_word)
  from usage_loop_total [OF this, of code2] obtain code3 where
    s3: "usage_loop (range_varMap it (varMap m2)) code2 = Inr code3"
    and c3: "set code3 \<subseteq> set code2 \<union> name_chars" by blast
  let ?out = "restore_loop (range_stringLiterals it tbl) code3"
  have "set ?out \<subseteq> set code3 \<union> (\<Union>(p, v) \<in> set (range_stringLiterals it tbl). set v)"
    by (rule restore_loop_set)
  moreover have "(\<Union>(p, v) \<in> set (range_stringLiterals it tbl). set v) \<subseteq> set code"
    using shield_inv_values [OF i1] rs by auto
  ultimately have "set ?out \<subseteq> set code \<union> name_chars" using c1 c2 c3 by blast
  moreover have "shortenVariableNames it (NewMinifier inp pl sv) code = Inr (?out, m2)"
    by (simp add: shortenVariableNames_def s1 s2 s3)
  ultimately show ?thesis by blast
qed

text \<open>Minify returns the license part followed by the minified rest.\<close>

lemma Minify_shape:
  assumes "well_formed it"
  shows "\<exists>r out. stage_operators operators
                   (stage_whitespace (stage_comments (snd (stage_license pl inp)))) = Inr r
           \<and> Minify it (NewMinifier inp pl sv) = Inr (fst (stage_license pl inp) @ out)
           \<and> set out \<subseteq> set (stage_punct r) \<union> name_chars
           \<and> (\<not> sv \<longrightarrow> out = stage_punct r)"
proof -
  obtain r where r: "stage_operators operators
                   (stage_whitespace (stage_comments (snd (stage_license pl inp)))) = Inr r"
    using stage_operators_total by blast
  show ?thesis
  proof (cases sv)
    case False
    with r show ?thesis by (auto simp: Minify_no_shorten)
  next
    case True
    from shortenVariableNames_total [OF assms, of inp pl True "stage_punct r"]
    obtain out m' where "shortenVariableNames it (NewMinifier inp pl True) (stage_punct r) = Inr (out, m')"
      and "set out \<subseteq> set (stage_punct r) \<union> name_chars" by blast
    with r True show ?thesis by (auto simp: Minify_shorten)
  qed
qed

section \<open>Totality, the license prefix, line feeds and lengths\<close>

lemma well_formed_insertion_order: "well_formed insertion_order"
  by (simp add: well_formed_def is_range_def insertion_order_def)

lemma well_formed_reverse_order: "well_formed reverse_order"
  by (simp add: well_formed_def is_range_def reverse_order_def)

text \<open>
  Claim C4. Minify is total: for every input, every setting of the two options and every
  order in which the two maps are visited, it returns a string. No compilation of a
  pattern fails, no index is out of range, and every loop of the model is a function
  whose termination is proved.
\<close>

theorem Minify_total:
  assumes "well_formed it"
  shows "\<exists>out. Minify it (NewMinifier inp pl sv) = Inr out"
  using Minify_shape [OF assms, of pl inp sv] by blast

theorem Minify_total_witness:
  "well_formed reverse_order
   \<and> (\<exists>out. Minify reverse_order (NewMinifier ''var $x = (1 +; let y'' True True) = Inr out)"
  using Minify_total [OF well_formed_reverse_order, of "''var $x = (1 +; let y''" True True]
    well_formed_reverse_order by simp

text \<open>
  Claim C5. When the input starts with \<open>/*!\<close>, followed by a body and the first \<open>*/\<close>
  after the opener, Minify with preserve-license enabled returns a text that starts with
  exactly that comment (and a line feed after it).
\<close>

theorem Minify_license_prefix:
  assumes "well_formed it"
    and "inp = ''/*!'' @ body @ ''*/'' @ rest"
    and "\<not> sublist ''*/'' (body @ ''*'')"
  shows "\<exists>tail. Minify it (NewMinifier inp True sv)
                  = Inr ((''/*!'' @ body @ ''*/'') @ newline # tail)"
proof -
  from stage_license_marked [OF assms(3), of rest] assms(2)
  have "fst (stage_license True inp) = (''/*!'' @ body @ ''*/'') @ [newline]" by simp
  with Minify_shape [OF assms(1), of True inp sv] show ?thesis by auto
qed

theorem Minify_license_prefix_witness:
  "well_formed insertion_order
   \<and> ''/*! MIT **/ var x = 1; /* c */'' = ''/*!'' @ '' MIT *'' @ ''*/'' @ '' var x = 1; /* c */''
   \<and> \<not> sublist ''*/'' ('' MIT *'' @ ''*'')
   \<and> (\<exists>tail. Minify insertion_order (NewMinifier ''/*! MIT **/ var x = 1; /* c */'' True True)
                = Inr (''/*! MIT **/'' @ newline # tail))"
proof -
  have s: "\<not> sublist ''*/'' ('' MIT *'' @ ''*'')"
    by (simp add: sublist_Cons_right)
  have e: "''/*! MIT **/ var x = 1; /* c */'' = ''/*!'' @ '' MIT *'' @ ''*/'' @ '' var x = 1; /* c */''"
    by simp
  from Minify_license_prefix [OF well_formed_insertion_order e s, of True]
  show ?thesis using s well_formed_insertion_order by simp
qed




text \<open>
  Claim C8 (as amended). With the renaming switched off, when the text left after the
  removal of the comments contains none of \<open>+\<close>, \<open>*\<close>, \<open>?\<close> and \<open>|\<close>, the output of Minify is
  at most one byte longer than the input (the line feed written after a preserved
  license comment), and no longer than the input when preserve-license is disabled.
\<close>

theorem Minify_length:
  assumes "set (stage_comments (snd (stage_license pl inp))) \<inter> long_ops = {}"
  shows "\<exists>out. Minify it (NewMinifier inp pl False) = Inr out
           \<and> length out \<le> length inp + 1
           \<and> (\<not> pl \<longrightarrow> length out \<le> length inp)"
proof -
  let ?rest = "snd (stage_license pl inp)"
  let ?c = "stage_comments ?rest"
  obtain r where r: "stage_operators operators (stage_whitespace ?c) = Inr r"
    using stage_operators_total by blast
  have m: "Minify it (NewMinifier inp pl False) = Inr (fst (stage_license pl inp) @ stage_punct r)"
    by (simp add: Minify_no_shorten r)
  have "CHR '' '' \<notin> long_ops" by (simp add: long_ops_def)
  with set_stage_whitespace [of ?c] assms have "set (stage_whitespace ?c) \<inter> long_ops = {}"
    by blast
  from stage_operators_length_aux [OF r this operators_long_or_short]
  have "length r \<le> length (stage_whitespace ?c)" by simp
  also have "\<dots> \<le> length ?c" by (rule length_stage_whitespace)
  also have "\<dots> \<le> length ?rest" by (rule length_stage_comments)
  finally have "length (stage_punct r) \<le> length ?rest"
    using length_stage_punct [of r] by simp
  moreover from stage_license_split [of pl inp] obtain lic where
    f: "fst (stage_license pl inp) = [] \<and> lic = [] \<or> fst (stage_license pl inp) = lic @ [newline]"
    and i: "inp = lic @ ?rest" by blast
  from i have "length inp = length lic + length ?rest" by (metis length_append)
  with f have "length (fst (stage_license pl inp)) + length ?rest \<le> length inp + 1"
    by auto
  moreover have "\<not> pl \<Longrightarrow> length (fst (stage_license pl inp)) + length ?rest = length inp"
    by (simp add: stage_license_False)
  ultimately have "length (fst (stage_license pl inp) @ stage_punct r) \<le> length inp + 1"
    and "\<not> pl \<Longrightarrow> length (fst (stage_license pl inp) @ stage_punct r) \<le> length inp"
    by simp_all
  with m show ?thesis by auto
qed

theorem Minify_length_witness:
  "set (stage_comments (snd (stage_license False ''a = 1;  // x + y''))) \<inter> long_ops = {}
   \<and> (\<exists>out. Minify insertion_order (NewMinifier ''a = 1;  // x + y'' False False) = Inr out
          \<and> length out \<le> length ''a = 1;  // x + y'')"
proof -
  have h: "set (stage_comments (snd (stage_license False ''a = 1;  // x + y''))) \<inter> long_ops = {}"
    by code_simp
  from Minify_length [OF h, of insertion_order] show ?thesis using h by auto
qed

theorem Minify_length_counterexample:
  "Minify insertion_order (NewMinifier ''/*!*/a'' True False) = Inr (''/*!*/'' @ [CHR 0x0A] @ ''a'')
   \<and> \<not> length (''/*!*/'' @ [CHR 0x0A] @ ''a'') \<le> length ''/*!*/a''
   \<and> sublist ''/*'' ''/*!*/a''"
  by (intro conjI, code_simp, simp, simp add: sublist_Cons_right)

section \<open>The usage pattern\<close>

declare tokens.simps(2) [simp del]

lemma tokens_word:
  "is_word c \<Longrightarrow> tokens (c # cs) = (c # takeWhile is_word cs) # tokens (dropWhile is_word cs)"
  by (simp add: tokens.simps(2))

lemma tokens_other: "\<not> is_word c \<Longrightarrow> tokens (c # cs) = [c] # tokens cs"
  by (simp add: tokens.simps(2))

lemma compile_ident_word: "list_all is_word k \<Longrightarrow> compile_ident k = Inr (map Lit k)"
proof (induction k)
  case Nil
  show ?case by simp
next
  case (Cons c k)
  then have "is_word c" "c \<noteq> CHR ''$''"
    by (auto simp: is_word_def is_letter_def is_digit_def)
  with Cons show ?case by simp
qed

lemma match_items_Lit:
  "match_items (map Lit k) s = (if prefix k s then Some (length k) else None)"
proof (induction k arbitrary: s)
  case Nil
  show ?case by simp
next
  case (Cons c k)
  show ?case by (cases s) (simp_all add: Cons)
qed

lemma match_items_end: "Lit x \<in> set items \<Longrightarrow> match_items items [] = None"
proof (induction items)
  case Nil
  then show ?case by simp
next
  case (Cons i items)
  then show ?case by (cases i) auto
qed

lemma compile_ident_last:
  assumes "compile_ident k = Inr items" and "k \<noteq> []" and "is_word (last k)"
  shows "Lit (last k) \<in> set items"
  using assms
proof (induction k arbitrary: items)
  case Nil
  then show ?case by simp
next
  case (Cons c k)
  from Cons.prems(1) obtain items' where i: "compile_ident k = Inr items'"
    and e: "items = (if c = CHR ''$'' then EndText else Lit c) # items'"
    by (auto split: if_splits sum.splits)
  show ?case
  proof (cases "k = []")
    case True
    with Cons.prems(3) have "c \<noteq> CHR ''$''"
      by (auto simp: is_word_def is_letter_def is_digit_def)
    with e True show ?thesis by simp
  next
    case False
    with Cons.IH [OF i] Cons.prems(3) have "Lit (last k) \<in> set items'" by simp
    with e False show ?thesis by simp
  qed
qed

text \<open>A pattern with \<open>$\<close> before a literal matches nowhere.\<close>

lemma match_items_dollar:
  assumes "compile_ident k = Inr items" and "CHR ''$'' \<in> set k" and "is_word (last k)"
  shows "match_items items s = None"
  using assms
proof (induction k arbitrary: items s)
  case Nil
  then show ?case by simp
next
  case (Cons c k)
  from Cons.prems(1) obtain items' where i: "compile_ident k = Inr items'"
    and e: "items = (if c = CHR ''$'' then EndText else Lit c) # items'"
    by (auto split: if_splits sum.splits)
  have ne: "k \<noteq> []"
  proof
    assume "k = []"
    with Cons.prems(2,3) show False by (auto simp: is_word_def is_letter_def is_digit_def)
  qed
  then have lw: "is_word (last k)" using Cons.prems(3) by simp
  show ?case
  proof (cases "c = CHR ''$''")
    case True
    from compile_ident_last [OF i ne lw] have "match_items items' [] = None"
      by (rule match_items_end)
    with e True show ?thesis by simp
  next
    case False
    with Cons.prems(2) have "CHR ''$'' \<in> set k" by simp
    from Cons.IH [OF i this lw] have "\<And>s. match_items items' s = None" .
    with e False show ?thesis by (cases s) simp_all
  qed
qed

lemma re_usage_dollar:
  assumes "compile_ident k = Inr items" and "CHR ''$'' \<in> set k" and "is_word (last k)"
  shows "ReplaceAllString (re_usage items) v prev s = s"
proof (rule ReplaceAllString_no_match)
  fix prev t
  show "re_usage items prev t = None"
    by (simp add: re_usage_def match_items_dollar [OF assms])
qed

text \<open>A pattern of the usage pass never matches the empty string.\<close>

lemma re_usage_nonempty:
  assumes "compile_ident k = Inr items" and "good_ident k"
  shows "re_usage items prev s \<noteq> Some 0"
proof
  assume z: "re_usage items prev s = Some 0"
  then have m: "match_items items s = Some 0"
    by (auto simp: re_usage_def split: if_splits option.splits)
  from assms(2) have ne: "k \<noteq> []" and lw: "is_word (last k)" and ic: "list_all is_ident_char k"
    by (simp_all add: good_ident_def)
  show False
  proof (cases "CHR ''$'' \<in> set k")
    case True
    from match_items_dollar [OF assms(1) True lw] m show False by simp
  next
    case False
    with ic have "list_all is_word k" by (auto simp: list_all_iff is_ident_char_def)
    with assms(1) have "items = map Lit k" by (simp add: compile_ident_word)
    with m ne show False by (auto simp: match_items_Lit split: if_splits)
  qed
qed

section \<open>The usage pass as a substitution of whole words\<close>

lemma takeWhile_dropWhile_Nil: "takeWhile P (dropWhile P xs) = []"
  by (induction xs) auto

lemma prefix_word_run:
  assumes "list_all is_word k" and "prefix k s"
    and "next_char (drop (length k) s) = None \<or> (\<exists>y. next_char (drop (length k) s) = Some y \<and> \<not> is_word y)"
  shows "takeWhile is_word s = k"
proof -
  from assms(2) obtain r where s: "s = k @ r" by (auto simp: prefix_def)
  with assms(3) have "r = [] \<or> \<not> is_word (hd r)"
    by (cases r) (auto simp: next_char_def)
  then have "takeWhile is_word r = []" by (cases r) auto
  with assms(1) s show ?thesis by (simp add: takeWhile_append2 list_all_iff)
qed

text \<open>What the usage pattern of a word does at the start of a word.\<close>

lemma re_usage_at_word:
  assumes k: "k \<noteq> []" "list_all is_word k"
    and p: "\<not> (case prev of None \<Rightarrow> False | Some x \<Rightarrow> is_word x)"
    and c: "is_word c"
  shows "re_usage (map Lit k) prev (c # cs)
           = (if c # takeWhile is_word cs = k then Some (length k) else None)"
proof -
  let ?s = "c # cs"
  have w: "takeWhile is_word ?s = c # takeWhile is_word cs" using c by simp
  have b: "word_boundary prev (next_char ?s)"
    using p c by (simp add: word_boundary_def next_char_def)
  show ?thesis
  proof (cases "c # takeWhile is_word cs = k")
    case True
    then have pk: "prefix k ?s" by (metis w takeWhile_eq_take take_is_prefix)
    have lk: "is_word (last k)" using k by (metis last_in_set list_all_iff)
    have tk: "take (length k) ?s = k" using pk by (auto simp: prefix_def)
    have "drop (length k) ?s = dropWhile is_word ?s"
      using True w by (metis dropWhile_eq_drop)
    moreover have "dropWhile is_word ?s = [] \<or> \<not> is_word (hd (dropWhile is_word ?s))"
      using hd_dropWhile by blast
    ultimately have "\<not> (case next_char (drop (length k) ?s) of None \<Rightarrow> False | Some x \<Rightarrow> is_word x)"
      by (cases "dropWhile is_word ?s") (auto simp: next_char_def)
    then have "word_boundary (Some (last (take (length k) ?s))) (next_char (drop (length k) ?s))"
      using lk tk by (simp add: word_boundary_def)
    with b pk k True show ?thesis
      by (simp add: re_usage_def match_items_Lit)
  next
    case False
    have "re_usage (map Lit k) prev ?s = None"
    proof (cases "prefix k ?s")
      case pk: True
      have "\<not> word_boundary (Some (last (take (length k) ?s))) (next_char (drop (length k) ?s))"
      proof
        assume wb: "word_boundary (Some (last (take (length k) ?s))) (next_char (drop (length k) ?s))"
        have tk: "take (length k) ?s = k" using pk by (auto simp: prefix_def)
        have lk: "is_word (last k)" using k by (metis last_in_set list_all_iff)
        from wb tk lk have "next_char (drop (length k) ?s) = None
            \<or> (\<exists>y. next_char (drop (length k) ?s) = Some y \<and> \<not> is_word y)"
          by (auto simp: word_boundary_def split: option.splits)
        from prefix_word_run [OF k(2) pk this] w False show False by simp
      qed
      with pk k show ?thesis by (simp add: re_usage_def match_items_Lit)
    next
      case False
      then show ?thesis by (simp add: re_usage_def match_items_Lit)
    qed
    with False show ?thesis by simp
  qed
qed

lemma re_usage_inside:
  assumes "k \<noteq> []" "list_all is_word k"
    and "(case prev of None \<Rightarrow> False | Some x \<Rightarrow> is_word x) = is_word c"
  shows "re_usage (map Lit k) prev (c # cs) = None"
  using assms by (simp add: re_usage_def word_boundary_def next_char_def)

lemma re_usage_other:
  assumes "k \<noteq> []" "list_all is_word k" and "\<not> is_word c"
  shows "re_usage (map Lit k) prev (c # cs) = None"
proof -
  from assms obtain x k' where k: "k = x # k'" "is_word x" by (cases k) auto
  with assms(3) have "x \<noteq> c" by auto
  with k show ?thesis by (simp add: re_usage_def)
qed

lemma subst_words_Nil: "subst_words k v [] = []"
  by (simp add: subst_words_def)

lemma subst_words_word:
  "is_word c \<Longrightarrow> subst_words k v (c # cs)
     = subst_word k v (c # takeWhile is_word cs) @ subst_words k v (dropWhile is_word cs)"
  by (simp add: subst_words_def tokens_word)

lemma subst_words_other:
  "\<not> is_word c \<Longrightarrow> list_all is_word k \<Longrightarrow> subst_words k v (c # cs) = c # subst_words k v cs"
  by (auto simp: subst_words_def tokens_other subst_word_def)

text \<open>
  The usage pass for an identifier of word bytes replaces the whole words equal to it.
  Inside a word (after a word byte) the rest of the word is copied first.
\<close>

lemma usage_scan_words:
  assumes k: "k \<noteq> []" "list_all is_word k"
  shows "ReplaceAllString (re_usage (map Lit k)) v prev s
           = (if (case prev of None \<Rightarrow> False | Some x \<Rightarrow> is_word x)
              then takeWhile is_word s @ subst_words k v (dropWhile is_word s)
              else subst_words k v s)"
proof (induction s arbitrary: prev rule: length_induct)
  case (1 s)
  let ?re = "re_usage (map Lit k)"
  let ?in = "\<lambda>prev. case prev of None \<Rightarrow> False | Some x \<Rightarrow> is_word x"
  show ?case
  proof (cases s)
    case Nil
    then show ?thesis by (simp add: subst_words_Nil)
  next
    case (Cons c cs)
    have ih: "\<And>t p. length t < length s \<Longrightarrow>
        ReplaceAllString ?re v p t
          = (if ?in p then takeWhile is_word t @ subst_words k v (dropWhile is_word t)
             else subst_words k v t)"
      using 1 by blast
    have lcs: "length cs < length s" using Cons by simp
    show ?thesis
    proof (cases "is_word c")
      case nw: False
      have "?re prev (c # cs) = None" using k nw by (rule re_usage_other)
      then have "ReplaceAllString ?re v prev (c # cs) = c # ReplaceAllString ?re v (Some c) cs"
        by (intro ReplaceAllString_Cons_copy) simp
      also have "\<dots> = c # subst_words k v cs" using ih [OF lcs, of "Some c"] nw by simp
      finally show ?thesis using Cons nw k by (simp add: subst_words_other)
    next
      case w: True
      show ?thesis
      proof (cases "?in prev")
        case True
        then have "?re prev (c # cs) = None" using k w by (intro re_usage_inside) simp_all
        then have "ReplaceAllString ?re v prev (c # cs) = c # ReplaceAllString ?re v (Some c) cs"
          by (intro ReplaceAllString_Cons_copy) simp
        also have "\<dots> = c # takeWhile is_word cs @ subst_words k v (dropWhile is_word cs)"
          using ih [OF lcs, of "Some c"] w by simp
        finally show ?thesis using Cons w True by simp
      next
        case False
        note m = re_usage_at_word [OF k False w, of cs]
        show ?thesis
        proof (cases "c # takeWhile is_word cs = k")
          case eq: True
          define n where "n = length (takeWhile is_word cs)"
          have lk: "length k = Suc n" using eq by (auto simp: n_def)
          have mm: "?re prev (c # cs) = Some (Suc n)" using m eq lk by simp
          have d: "drop n cs = dropWhile is_word cs" by (simp add: n_def dropWhile_eq_drop)
          have t: "take n cs = takeWhile is_word cs" by (simp add: n_def takeWhile_eq_take [symmetric])
          define p' where "p' = Some (last (c # take n cs))"
          have "is_word (last (c # take n cs))"
            using t eq k by (metis last_in_set list_all_iff)
          then have ip: "?in p'" by (simp add: p'_def)
          have "length (drop n cs) < length s" using Cons by simp
          from ih [OF this, of p'] ip have "ReplaceAllString ?re v p' (drop n cs)
              = takeWhile is_word (drop n cs) @ subst_words k v (dropWhile is_word (drop n cs))"
            by simp
          also have "\<dots> = subst_words k v (dropWhile is_word cs)"
            by (simp add: d takeWhile_dropWhile_Nil)
          finally have r: "ReplaceAllString ?re v p' (drop n cs) = subst_words k v (dropWhile is_word cs)" .
          have "ReplaceAllString ?re v prev (c # cs) = v @ ReplaceAllString ?re v p' (drop n cs)"
            using mm unfolding p'_def by (rule ReplaceAllString_Cons_match)
          with r have "ReplaceAllString ?re v prev (c # cs) = v @ subst_words k v (dropWhile is_word cs)"
            by simp
          then show ?thesis using Cons w False eq by (simp add: subst_words_word subst_word_def)
        next
          case ne: False
          then have "?re prev (c # cs) = None" using m by simp
          then have "ReplaceAllString ?re v prev (c # cs) = c # ReplaceAllString ?re v (Some c) cs"
            by (intro ReplaceAllString_Cons_copy) simp
          also have "\<dots> = c # takeWhile is_word cs @ subst_words k v (dropWhile is_word cs)"
            using ih [OF lcs, of "Some c"] w by simp
          finally show ?thesis using Cons w False ne by (simp add: subst_words_word subst_word_def)
        qed
      qed
    qed
  qed
qed

section \<open>Steps of the usage loop commute\<close>

lemma tokens_word_append:
  assumes "u \<noteq> []" and "list_all is_word u" and "t = [] \<or> \<not> is_word (hd t)"
  shows "tokens (u @ t) = u # tokens t"
proof -
  from assms(1,2) obtain x u' where u: "u = x # u'" "is_word x" "list_all is_word u'"
    by (cases u) auto
  from assms(3) have t: "takeWhile is_word t = []" "dropWhile is_word t = t"
    by (cases t; auto)+
  from u(3) have "takeWhile is_word (u' @ t) = u'" "dropWhile is_word (u' @ t) = t"
    using t by (simp_all add: takeWhile_append2 dropWhile_append2 list_all_iff)
  with u show ?thesis by (simp add: tokens_word)
qed

lemma subst_words_starts_other:
  assumes "list_all is_word k" and "t = [] \<or> \<not> is_word (hd t)"
  shows "subst_words k v t = [] \<or> \<not> is_word (hd (subst_words k v t))"
proof (cases t)
  case Nil
  then show ?thesis by (simp add: subst_words_Nil)
next
  case (Cons x r)
  with assms(2) have "\<not> is_word x" by simp
  with Cons assms(1) show ?thesis by (simp add: subst_words_other)
qed

text \<open>After the substitution of a word by a word the text is cut into the same places.\<close>

lemma tokens_subst_words:
  assumes k: "list_all is_word k" and v: "v \<noteq> []" "list_all is_word v"
  shows "tokens (subst_words k v s) = map (subst_word k v) (tokens s)"
proof (induction s rule: length_induct)
  case (1 s)
  show ?case
  proof (cases s)
    case Nil
    then show ?thesis by (simp add: subst_words_Nil)
  next
    case (Cons c cs)
    show ?thesis
    proof (cases "is_word c")
      case False
      have "length cs < length s" using Cons by simp
      with 1 have "tokens (subst_words k v cs) = map (subst_word k v) (tokens cs)" by blast
      moreover have "subst_word k v [c] = [c]" using False k by (auto simp: subst_word_def)
      ultimately show ?thesis
        using Cons False k by (simp add: subst_words_other tokens_other)
    next
      case True
      let ?w = "c # takeWhile is_word cs"
      let ?rest = "dropWhile is_word cs"
      have "length ?rest < length s" using Cons by (simp add: length_dropWhile_le less_Suc_eq_le)
      with 1 have ih: "tokens (subst_words k v ?rest) = map (subst_word k v) (tokens ?rest)" by blast
      have "list_all is_word ?w" using True by (auto simp: list_all_iff dest: set_takeWhileD)
      then have sw: "subst_word k v ?w \<noteq> []" "list_all is_word (subst_word k v ?w)"
        using v by (simp_all add: subst_word_def)
      have "?rest = [] \<or> \<not> is_word (hd ?rest)" using hd_dropWhile by blast
      from subst_words_starts_other [OF k this]
      have "tokens (subst_word k v ?w @ subst_words k v ?rest)
          = subst_word k v ?w # tokens (subst_words k v ?rest)"
        by (rule tokens_word_append [OF sw])
      with ih Cons True show ?thesis by (simp add: subst_words_word tokens_word)
    qed
  qed
qed

lemma subst_words_commute:
  assumes "list_all is_word k1" "v1 \<noteq> []" "list_all is_word v1"
    and "list_all is_word k2" "v2 \<noteq> []" "list_all is_word v2"
    and "k1 \<noteq> k2" "v1 \<noteq> k2" "v2 \<noteq> k1"
  shows "subst_words k1 v1 (subst_words k2 v2 s) = subst_words k2 v2 (subst_words k1 v1 s)"
proof -
  have "\<And>t. subst_word k1 v1 (subst_word k2 v2 t) = subst_word k2 v2 (subst_word k1 v1 t)"
    using assms(7,8,9) by (auto simp: subst_word_def)
  then have e: "map (subst_word k1 v1) (map (subst_word k2 v2) (tokens s))
      = map (subst_word k2 v2) (map (subst_word k1 v1) (tokens s))" by simp
  have "subst_words k1 v1 (subst_words k2 v2 s)
      = concat (map (subst_word k1 v1) (map (subst_word k2 v2) (tokens s)))"
    by (simp only: subst_words_def [of k1 v1] tokens_subst_words [OF assms(4,5,6)])
  also have "\<dots> = concat (map (subst_word k2 v2) (map (subst_word k1 v1) (tokens s)))"
    by (simp only: e)
  also have "\<dots> = subst_words k2 v2 (subst_words k1 v1 s)"
    by (simp only: subst_words_def [of k2 v2] tokens_subst_words [OF assms(1,2,3)])
  finally show ?thesis .
qed

text \<open>One step of the usage loop, for an entry of a table made by the declaration scan.\<close>

lemma usage_step_cases:
  assumes "good_ident k" and "v = nth_name i"
  shows "(CHR ''$'' \<in> set k \<and> usage_step (k, v) = (\<lambda>code. code))
       \<or> (list_all is_word k \<and> usage_step (k, v) = subst_words k v)"
proof -
  from assms(1) have ne: "k \<noteq> []" and lw: "is_word (last k)" and ic: "list_all is_ident_char k"
    by (simp_all add: good_ident_def)
  from compile_ident_total [OF ic] obtain items where c: "compile_ident k = Inr items" ..
  show ?thesis
  proof (cases "CHR ''$'' \<in> set k")
    case True
    have "usage_step (k, v) = (\<lambda>code. code)"
      by (rule ext) (simp add: usage_step_def c re_usage_dollar [OF c True lw])
    with True show ?thesis by simp
  next
    case False
    with ic have w: "list_all is_word k" by (auto simp: list_all_iff is_ident_char_def)
    have "usage_step (k, v) = subst_words k v"
      by (rule ext) (simp add: usage_step_def compile_ident_word [OF w] usage_scan_words [OF ne w])
    with w show ?thesis by simp
  qed
qed

lemma usage_step_commute:
  assumes "good_ident k1" "v1 = nth_name i1" "good_ident k2" "v2 = nth_name i2"
    and "k1 \<noteq> k2" "v1 \<noteq> k2" "v2 \<noteq> k1"
  shows "usage_step (k1, v1) \<circ> usage_step (k2, v2) = usage_step (k2, v2) \<circ> usage_step (k1, v1)"
proof -
  have n: "v1 \<noteq> []" "list_all is_word v1" "v2 \<noteq> []" "list_all is_word v2"
    using assms(2,4) by (auto simp: nth_name_nonempty list_all_iff dest: nth_name_word)
  from usage_step_cases [OF assms(1,2)] usage_step_cases [OF assms(3,4)]
  show ?thesis
  proof (elim disjE conjE)
    assume "list_all is_word k1" "usage_step (k1, v1) = subst_words k1 v1"
      "list_all is_word k2" "usage_step (k2, v2) = subst_words k2 v2"
    then show ?thesis
      using subst_words_commute [OF _ n(1,2) _ n(3,4) assms(5,6,7)] by (auto simp: fun_eq_iff)
  qed (simp_all add: fun_eq_iff)
qed

lemma usage_loop_fold:
  assumes "\<forall>(k, v) \<in> set tbl. list_all is_ident_char k"
  shows "usage_loop tbl code = Inr (fold usage_step tbl code)"
  using assms
proof (induction tbl arbitrary: code)
  case Nil
  show ?case by simp
next
  case (Cons e tbl)
  obtain k v where e: "e = (k, v)" by (cases e)
  with Cons.prems have "list_all is_ident_char k" by simp
  from compile_ident_total [OF this] obtain items where c: "compile_ident k = Inr items" ..
  from Cons.prems have "\<forall>(k, v) \<in> set tbl. list_all is_ident_char k" by simp
  from Cons.IH [OF this] e c show ?case by (simp add: usage_step_def)
qed

lemma decl_scan_inv:
  assumes "ReplaceAllStringFunc re_decl declare_fn (NewMinifier inp pl sv) None buf = Inr (code, m)"
  shows "decl_inv m"
proof -
  from ReplaceAllStringFunc_inv [where I = decl_inv and f = declare_fn
      and S = UNIV and Q = name_chars and st = "NewMinifier inp pl sv" and s = buf
      and re = re_decl and prev = None]
  obtain code' m' where
    "ReplaceAllStringFunc re_decl declare_fn (NewMinifier inp pl sv) None buf = Inr (code', m')"
    and "decl_inv m'"
    using declare_fn_step decl_inv_NewMinifier by blast
  with assms show ?thesis by simp
qed

lemma decl_inv_functional:
  assumes "decl_inv m" and "(k, v1) \<in> set (varMap m)" and "(k, v2) \<in> set (varMap m)"
  shows "v1 = v2"
proof -
  from assms(1) obtain ks where vm: "varMap m = zip ks (map nth_name [0..<length ks])"
    and dk: "distinct ks"
    by (auto simp: decl_inv_def)
  then have "distinct (map fst (varMap m))" by simp
  with assms(2,3) show ?thesis by (meson eq_key_imp_eq_value)
qed

section \<open>The order of the usage loop\<close>

text \<open>
  Claim C3 (as amended). For a rename table made by the declaration scan of any buffer,
  when no entry's short name is the original identifier of a different entry, the usage
  loop returns the same buffer for every order in which the entries are visited.
\<close>

theorem usage_order_irrelevant:
  assumes scan: "ReplaceAllStringFunc re_decl declare_fn (NewMinifier inp pl sv) None buf
                   = Inr (code, m)"
    and sep: "\<forall>(o1, s1) \<in> set (varMap m). \<forall>(o2, s2) \<in> set (varMap m). o1 \<noteq> o2 \<longrightarrow> s1 \<noteq> o2"
    and xs: "mset xs = mset (varMap m)" and ys: "mset ys = mset (varMap m)"
  shows "usage_loop xs code = usage_loop ys code \<and> (\<exists>out. usage_loop xs code = Inr out)"
proof -
  from scan have inv: "decl_inv m" by (rule decl_scan_inv)
  have sx: "set xs = set (varMap m)" using xs by (metis set_mset_mset)
  have sy: "set ys = set (varMap m)" using ys by (metis set_mset_mset)
  have ic: "\<forall>(k, v) \<in> set (varMap m). list_all is_ident_char k"
    using decl_inv_entries [OF inv] by (auto simp: good_ident_def)
  have fx: "usage_loop xs code = Inr (fold usage_step xs code)"
    by (rule usage_loop_fold) (use ic sx in simp)
  have fy: "usage_loop ys code = Inr (fold usage_step ys code)"
    by (rule usage_loop_fold) (use ic sy in simp)
  have comm: "\<And>x y. x \<in> set xs \<Longrightarrow> y \<in> set xs
                \<Longrightarrow> usage_step x \<circ> usage_step y = usage_step y \<circ> usage_step x"
  proof -
    fix x y assume x: "x \<in> set xs" and y: "y \<in> set xs"
    obtain k1 v1 k2 v2 where e: "x = (k1, v1)" "y = (k2, v2)" by (cases x, cases y)
    from x y e sx have m1: "(k1, v1) \<in> set (varMap m)" and m2: "(k2, v2) \<in> set (varMap m)"
      by simp_all
    from decl_inv_entries [OF inv m1] obtain i1 where g1: "good_ident k1" "v1 = nth_name i1"
      by blast
    from decl_inv_entries [OF inv m2] obtain i2 where g2: "good_ident k2" "v2 = nth_name i2"
      by blast
    show "usage_step x \<circ> usage_step y = usage_step y \<circ> usage_step x"
    proof (cases "k1 = k2")
      case True
      with decl_inv_functional [OF inv m1] m2 have "v1 = v2" by simp
      with True e show ?thesis by simp
    next
      case False
      have pick: "\<And>a b c d. (a, b) \<in> set (varMap m) \<Longrightarrow> (c, d) \<in> set (varMap m)
                    \<Longrightarrow> a \<noteq> c \<Longrightarrow> b \<noteq> c"
      proof -
        fix a b c d
        assume ab: "(a, b) \<in> set (varMap m)" and cd: "(c, d) \<in> set (varMap m)" and ne: "a \<noteq> c"
        from sep ab have "case (a, b) of (o1, s1) \<Rightarrow>
            \<forall>(o2, s2) \<in> set (varMap m). o1 \<noteq> o2 \<longrightarrow> s1 \<noteq> o2" by (rule bspec)
        then have "\<forall>(o2, s2) \<in> set (varMap m). a \<noteq> o2 \<longrightarrow> b \<noteq> o2" by simp
        from this cd have "case (c, d) of (o2, s2) \<Rightarrow> a \<noteq> o2 \<longrightarrow> b \<noteq> o2" by (rule bspec)
        with ne show "b \<noteq> c" by simp
      qed
      from pick [OF m1 m2 False] pick [OF m2 m1] False have "v1 \<noteq> k2" "v2 \<noteq> k1" by auto
      with usage_step_commute [OF g1 g2 False] e show ?thesis by simp
    qed
  qed
  have "mset xs = mset ys" using xs ys by simp
  with comm have "fold usage_step xs = fold usage_step ys"
    by (rule fold_multiset_equiv)
  with fx fy show ?thesis by simp
qed

theorem usage_order_irrelevant_witness:
  "usage_loop [(''total'', ''a''), (''count'', ''b'')] ''var a;let b;total+count''
     = usage_loop [(''count'', ''b''), (''total'', ''a'')] ''var a;let b;total+count''
   \<and> usage_loop [(''total'', ''a''), (''count'', ''b'')] ''var a;let b;total+count''
     = Inr ''var a;let b;a+b''"
proof -
  define m where "m = NewMinifier [] False True\<lparr>varMap := [(''total'', ''a''), (''count'', ''b'')],
                          varCounter := 2\<rparr>"
  have scan: "ReplaceAllStringFunc re_decl declare_fn (NewMinifier [] False True) None
                ''var total;let count;total+count'' = Inr (''var a;let b;total+count'', m)"
    unfolding m_def by code_simp
  have vm: "varMap m = [(''total'', ''a''), (''count'', ''b'')]" by (simp add: m_def)
  have sep: "\<forall>(o1, s1) \<in> set (varMap m). \<forall>(o2, s2) \<in> set (varMap m). o1 \<noteq> o2 \<longrightarrow> s1 \<noteq> o2"
    by (simp add: vm)
  have p: "mset [(''total'', ''a''), (''count'', ''b'')] = mset (varMap m)"
    "mset [(''count'', ''b''), (''total'', ''a'')] = mset (varMap m)"
    by (simp_all add: vm)
  have v: "usage_loop [(''total'', ''a''), (''count'', ''b'')] ''var a;let b;total+count''
     = Inr ''var a;let b;a+b''" by code_simp
  from usage_order_irrelevant [OF scan sep p]
  have "usage_loop [(''total'', ''a''), (''count'', ''b'')] ''var a;let b;total+count''
     = usage_loop [(''count'', ''b''), (''total'', ''a'')] ''var a;let b;total+count''"
    by (rule conjunct1)
  from this v show ?thesis by (rule conjI)
qed

theorem usage_order_irrelevant_counterexample:
  "ReplaceAllStringFunc re_decl declare_fn (NewMinifier [] False True) None ''var b;var a;''
     = Inr (''var a;var b;'',
            NewMinifier [] False True\<lparr>varMap := [(''b'', ''a''), (''a'', ''b'')], varCounter := 2\<rparr>)
   \<and> usage_loop [(''b'', ''a''), (''a'', ''b'')] ''var a;var b;'' = Inr ''var b;var b;''
   \<and> usage_loop [(''a'', ''b''), (''b'', ''a'')] ''var a;var b;'' = Inr ''var a;var a;''"
  by (intro conjI; code_simp)

section \<open>The pieces of a text and the shielding pass\<close>

declare pieces.simps(2) [simp del]

lemma re_string_prev: "re_string prev s = re_string None s"
  by (simp add: re_string_def)

lemma re_string_Some:
  assumes "re_string prev s = Some n"
  shows "\<exists>k. n = Suc (Suc k) \<and> n \<le> length s \<and> quoted (take n s)"
proof -
  from assms obtain q r where s: "s = q # r" and q: "q = dquote \<or> q = squote"
    and m: "q \<in> set r" and n: "n = length (takeWhile (\<lambda>c. c \<noteq> q) r) + 2"
    by (auto simp: re_string_def split: list.splits if_splits)
  define k where "k = length (takeWhile (\<lambda>c. c \<noteq> q) r)"
  from m have d: "dropWhile (\<lambda>c. c \<noteq> q) r \<noteq> []" by (simp add: dropWhile_eq_Nil_conv)
  then have hq: "hd (dropWhile (\<lambda>c. c \<noteq> q) r) = q" using hd_dropWhile [of "\<lambda>c. c \<noteq> q" r] by simp
  from d hq obtain rest where dr: "dropWhile (\<lambda>c. c \<noteq> q) r = q # rest"
    by (cases "dropWhile (\<lambda>c. c \<noteq> q) r") auto
  have r: "r = takeWhile (\<lambda>c. c \<noteq> q) r @ q # rest"
    using dr by (metis takeWhile_dropWhile_id)
  have "take (Suc k) r = takeWhile (\<lambda>c. c \<noteq> q) r @ [q]"
  proof -
    have "take (Suc k) (takeWhile (\<lambda>c. c \<noteq> q) r @ q # rest) = takeWhile (\<lambda>c. c \<noteq> q) r @ [q]"
      by (simp add: k_def)
    with r show ?thesis by simp
  qed
  then have t: "take n s = q # takeWhile (\<lambda>c. c \<noteq> q) r @ [q]"
    using s n by (simp add: k_def)
  have "Suc k \<le> length r"
    using r by (metis k_def length_append length_Cons le_add1 add_Suc_right Suc_le_mono)
  then have "n \<le> length s" using s n by (simp add: k_def)
  moreover have "quoted (take n s)" using t q by (simp add: quoted_def)
  moreover have "n = Suc (Suc k)" using n by (simp add: k_def)
  ultimately show ?thesis by blast
qed

lemma pieces_match:
  "re_string None (c # cs) = Some (Suc n) \<Longrightarrow>
     pieces (c # cs) = Quoted (c # take n cs) # pieces (drop n cs)"
  by (simp add: pieces.simps(2))

lemma pieces_copy:
  "(\<And>n. re_string None (c # cs) \<noteq> Some (Suc n)) \<Longrightarrow> pieces (c # cs) = Chr c # pieces cs"
  by (cases "re_string None (c # cs)") (auto simp: pieces.simps(2) split: nat.splits)

lemma unparse_pieces: "unparse (pieces s) = s"
proof (induction s rule: length_induct)
  case (1 s)
  show ?case
  proof (cases s)
    case Nil
    then show ?thesis by simp
  next
    case (Cons c cs)
    show ?thesis
    proof (cases "\<exists>n. re_string None (c # cs) = Some (Suc n)")
      case True
      then obtain n where m: "re_string None (c # cs) = Some (Suc n)" ..
      have "length (drop n cs) < length s" using Cons by simp
      with 1 have "unparse (pieces (drop n cs)) = drop n cs" by blast
      with m Cons show ?thesis by (simp add: pieces_match)
    next
      case False
      then have "pieces (c # cs) = Chr c # pieces cs" by (intro pieces_copy) blast
      moreover have "length cs < length s" using Cons by simp
      with 1 have "unparse (pieces cs) = cs" by blast
      ultimately show ?thesis using Cons by simp
    qed
  qed
qed

lemma literals_pieces_quoted: "list_all quoted (literals (pieces s))"
proof (induction s rule: length_induct)
  case (1 s)
  show ?case
  proof (cases s)
    case Nil
    then show ?thesis by simp
  next
    case (Cons c cs)
    show ?thesis
    proof (cases "\<exists>n. re_string None (c # cs) = Some (Suc n)")
      case True
      then obtain n where m: "re_string None (c # cs) = Some (Suc n)" ..
      have "length (drop n cs) < length s" using Cons by simp
      with 1 have "list_all quoted (literals (pieces (drop n cs)))" by blast
      moreover from re_string_Some [OF m] have "quoted (c # take n cs)" by auto
      ultimately show ?thesis using m Cons by (simp add: pieces_match)
    next
      case False
      then have "pieces (c # cs) = Chr c # pieces cs" by (intro pieces_copy) blast
      moreover have "length cs < length s" using Cons by simp
      with 1 have "list_all quoted (literals (pieces cs))" by blast
      ultimately show ?thesis using Cons by simp
    qed
  qed
qed

lemma shield_table_Chr: "shield_table n (Chr c # ps) = shield_table n ps"
  by (simp add: shield_table_def)

lemma shield_table_Quoted:
  "shield_table n (Quoted l # ps) = (placeholder_of n, l) # shield_table (Suc n) ps"
proof -
  have "[n..<n + Suc (length (literals ps))] = n # [Suc n..<Suc n + length (literals ps)]"
    by (subst upt_rec) simp
  then show ?thesis by (simp add: shield_table_def)
qed

lemma shield_table_Nil: "shield_table n [] = []"
  by (simp add: shield_table_def)

text \<open>
  The shielding pass writes the placeholders 0, 1, 2, ... for the literals in the order
  of the text and records each literal under its placeholder.
\<close>

lemma shield_scan:
  assumes "fst ` set tbl \<subseteq> placeholder_of ` {..<length tbl}"
  shows "ReplaceAllStringFunc re_string shield_fn tbl prev s
           = Inr (mixed {} (length tbl) (pieces s), tbl @ shield_table (length tbl) (pieces s))"
  using assms
proof (induction s arbitrary: tbl prev rule: length_induct)
  case (1 s)
  show ?case
  proof (cases s)
    case Nil
    then show ?thesis by (simp add: shield_table_Nil)
  next
    case (Cons c cs)
    show ?thesis
    proof (cases "\<exists>n. re_string None (c # cs) = Some (Suc n)")
      case True
      then obtain n where m: "re_string None (c # cs) = Some (Suc n)" ..
      then have m': "re_string prev (c # cs) = Some (Suc n)" by (simp add: re_string_prev [of prev])
      define lit where "lit = c # take n cs"
      define tbl1 where "tbl1 = tbl @ [(placeholder_of (length tbl), lit)]"
      define p' where "p' = Some (last (c # take n cs))"
      have "placeholder_of (length tbl) \<notin> fst ` set tbl"
        using 1(2) by (auto dest!: subsetD dest: placeholder_of_inj)
      then have sf: "shield_fn tbl lit = Inr (placeholder_of (length tbl), tbl1)"
        by (simp add: shield_fn_def Let_def update_absent tbl1_def)
      have k: "fst ` set tbl1 \<subseteq> placeholder_of ` {..<length tbl1}"
        using 1(2) by (auto simp: tbl1_def less_Suc_eq)
      have "length (drop n cs) < length s" using Cons by simp
      with 1(1) k have ih: "ReplaceAllStringFunc re_string shield_fn tbl1 p' (drop n cs)
          = Inr (mixed {} (length tbl1) (pieces (drop n cs)),
                 tbl1 @ shield_table (length tbl1) (pieces (drop n cs)))" by blast
      have "ReplaceAllStringFunc re_string shield_fn tbl prev (c # cs)
          = (case shield_fn tbl (c # take n cs) of
               Inl e \<Rightarrow> Inl e
             | Inr (r, st') \<Rightarrow>
                 (case ReplaceAllStringFunc re_string shield_fn st' p' (drop n cs) of
                    Inl e \<Rightarrow> Inl e
                  | Inr (out, st'') \<Rightarrow> Inr (r @ out, st'')))"
        using m' unfolding p'_def by (rule ReplaceAllStringFunc_Cons_match)
      then have "ReplaceAllStringFunc re_string shield_fn tbl prev (c # cs)
          = Inr (placeholder_of (length tbl) @ mixed {} (length tbl1) (pieces (drop n cs)),
                 tbl1 @ shield_table (length tbl1) (pieces (drop n cs)))"
        using sf ih by (simp add: lit_def)
      moreover have "pieces (c # cs) = Quoted lit # pieces (drop n cs)"
        using m by (simp add: pieces_match lit_def)
      ultimately show ?thesis
        using Cons by (simp add: shield_table_Quoted tbl1_def)
    next
      case False
      then have nm: "\<And>n. re_string prev (c # cs) \<noteq> Some (Suc n)"
        by (simp add: re_string_prev [of prev])
      from False have pc: "pieces (c # cs) = Chr c # pieces cs" by (intro pieces_copy) blast
      have "length cs < length s" using Cons by simp
      with 1 have ih: "ReplaceAllStringFunc re_string shield_fn tbl (Some c) cs
          = Inr (mixed {} (length tbl) (pieces cs), tbl @ shield_table (length tbl) (pieces cs))"
        by blast
      have "ReplaceAllStringFunc re_string shield_fn tbl prev (c # cs)
          = (case ReplaceAllStringFunc re_string shield_fn tbl (Some c) cs of
               Inl e \<Rightarrow> Inl e | Inr (out, st') \<Rightarrow> Inr (c # out, st'))"
        using nm by (rule ReplaceAllStringFunc_Cons_copy)
      with ih pc Cons show ?thesis by (simp add: shield_table_Chr)
    qed
  qed
qed

section \<open>Where a placeholder can occur\<close>

declare strings_Replace.simps(2) [simp del]

lemma strings_Replace_copy:
  "\<not> prefix old (c # cs) \<Longrightarrow> strings_Replace (c # cs) old new = c # strings_Replace cs old new"
  by (simp add: strings_Replace.simps(2))

lemma strings_Replace_hit:
  assumes "old \<noteq> []"
  shows "strings_Replace (old @ b) old new = new @ strings_Replace b old new"
proof -
  from assms obtain c cs where o: "old = c # cs" by (cases old) auto
  then have "strings_Replace ((c # cs) @ b) old new
      = new @ strings_Replace (drop (length old) ((c # cs) @ b)) old new"
    by (simp add: strings_Replace.simps(2))
  with o show ?thesis by simp
qed

lemma strings_Replace_skip:
  assumes "\<forall>i < length a. \<not> prefix old (drop i (a @ b))"
  shows "strings_Replace (a @ b) old new = a @ strings_Replace b old new"
  using assms
proof (induction a)
  case Nil
  show ?case by simp
next
  case (Cons c a)
  from Cons.prems have "\<not> prefix old (c # a @ b)" by force
  then have "strings_Replace (c # a @ b) old new = c # strings_Replace (a @ b) old new"
    by (rule strings_Replace_copy)
  moreover have "\<forall>i < length a. \<not> prefix old (drop i (a @ b))"
  proof (intro allI impI)
    fix i assume "i < length a"
    then have "Suc i < length (c # a)" by simp
    with Cons.prems have "\<not> prefix old (drop (Suc i) ((c # a) @ b))" by blast
    then show "\<not> prefix old (drop i (a @ b))" by simp
  qed
  ultimately show ?case using Cons.IH by simp
qed

text \<open>The shape of a placeholder: two underscores, \<open>STR_\<close>, a digit, digits, two underscores.\<close>

lemma fmt_d_Cons: "\<exists>d ds. fmt_d k = d # ds \<and> is_digit d"
  using fmt_d_nonempty [of k] fmt_d_digits [of k] by (cases "fmt_d k") auto

lemma digit_not_underscore: "is_digit d \<Longrightarrow> d \<noteq> CHR ''_''"
  by (auto simp: is_digit_def)

lemma placeholder_of_shape:
  "\<exists>d u. is_digit d \<and> placeholder_of k = ''__STR_'' @ d # u"
  using fmt_d_Cons [of k] by (auto simp: placeholder_of_def)

lemma quote_not_word: "is_word c \<Longrightarrow> c \<noteq> dquote \<and> c \<noteq> squote"
  by (auto simp: is_word_def is_letter_def is_digit_def dquote_def squote_def)

lemma quoted_hd: "quoted l \<Longrightarrow> \<exists>q r. l = q # r \<and> (q = dquote \<or> q = squote)"
  by (cases l) (auto simp: quoted_def)

lemma wf_pieces_tail: "wf_pieces (p # ps) \<Longrightarrow> wf_pieces ps"
  by (cases p) (auto simp: wf_pieces_def sublist_Cons_right)

lemma wf_quoted: "wf_pieces ps \<Longrightarrow> list_all quoted (literals ps)"
  by (simp add: wf_pieces_def list_all_iff)

text \<open>A byte that is neither an underscore nor a quote can only come from a copied byte.\<close>

lemma mixed_head_plain:
  assumes "list_all quoted (literals ps)" and "prefix (x # u) (mixed R n ps)"
    and "x \<noteq> CHR ''_''" and "x \<noteq> dquote" and "x \<noteq> squote"
  shows "\<exists>ps'. ps = Chr x # ps' \<and> prefix u (mixed R n ps')"
proof (cases ps)
  case Nil
  with assms(2) show ?thesis by simp
next
  case (Cons p ps')
  show ?thesis
  proof (cases p)
    case (Chr c)
    with Cons assms(2) show ?thesis by simp
  next
    case (Quoted l)
    with Cons assms(1) have "quoted l" by simp
    from quoted_hd [OF this] obtain q r where l: "l = q # r" "q = dquote \<or> q = squote" by blast
    from placeholder_of_shape [of n] obtain d v where "placeholder_of n = ''__STR_'' @ d # v" by blast
    with Cons Quoted assms(2-5) l show ?thesis by (auto split: if_splits)
  qed
qed

text \<open>An underscore before a byte that is not an underscore is a copied byte as well.\<close>

lemma mixed_head_underscore:
  assumes "list_all quoted (literals ps)" and "prefix (CHR ''_'' # x # u) (mixed R n ps)"
    and "x \<noteq> CHR ''_''"
  shows "\<exists>ps'. ps = Chr CHR ''_'' # ps' \<and> prefix (x # u) (mixed R n ps')"
proof (cases ps)
  case Nil
  with assms(2) show ?thesis by simp
next
  case (Cons p ps')
  show ?thesis
  proof (cases p)
    case (Chr c)
    with Cons assms(2) show ?thesis by simp
  next
    case (Quoted l)
    with Cons assms(1) have "quoted l" by simp
    from quoted_hd [OF this] obtain q r where l: "l = q # r" "q = dquote \<or> q = squote" by blast
    from placeholder_of_shape [of n] obtain d v where "placeholder_of n = ''__STR_'' @ d # v" by blast
    with Cons Quoted assms(2,3) l show ?thesis
      by (auto simp: dquote_def squote_def split: if_splits)
  qed
qed

lemma literals_tail: "list_all quoted (literals (p # ps)) \<Longrightarrow> list_all quoted (literals ps)"
  by (cases p) auto

text \<open>
  At the start of a rendering of well-formed pieces the text \<open>STR_\<close> with a digit after it
  does not occur, nor does it one byte later behind an underscore.
\<close>

lemma no_win0:
  assumes "wf_pieces ps" and "is_digit d"
  shows "\<not> prefix (''STR_'' @ d # u) (mixed R n ps)"
proof
  assume p: "prefix (''STR_'' @ d # u) (mixed R n ps)"
  from assms(1) have q0: "list_all quoted (literals ps)" by (rule wf_quoted)
  from mixed_head_plain [OF q0, of "CHR ''S''" "''TR_'' @ d # u" R n] p
  obtain ps1 where 1: "ps = Chr CHR ''S'' # ps1" "prefix (''TR_'' @ d # u) (mixed R n ps1)"
    by (auto simp: dquote_def squote_def)
  from q0 1 have q1: "list_all quoted (literals ps1)" by simp
  from mixed_head_plain [OF q1, of "CHR ''T''" "''R_'' @ d # u" R n] 1(2)
  obtain ps2 where 2: "ps1 = Chr CHR ''T'' # ps2" "prefix (''R_'' @ d # u) (mixed R n ps2)"
    by (auto simp: dquote_def squote_def)
  from q1 2 have q2: "list_all quoted (literals ps2)" by simp
  from mixed_head_plain [OF q2, of "CHR ''R''" "''_'' @ d # u" R n] 2(2)
  obtain ps3 where 3: "ps2 = Chr CHR ''R'' # ps3" "prefix (''_'' @ d # u) (mixed R n ps3)"
    by (auto simp: dquote_def squote_def)
  from q2 3 have q3: "list_all quoted (literals ps3)" by simp
  from mixed_head_underscore [OF q3, of d u R n] 3(2) digit_not_underscore [OF assms(2)]
  obtain ps4 where 4: "ps3 = Chr CHR ''_'' # ps4" by auto
  from 1 2 3 4 have "ps = map Chr ''STR_'' @ ps4" by simp
  then have "sublist (map Chr ''STR_'') ps" by (metis sublist_append_rightI)
  with assms(1) show False by (simp add: wf_pieces_def)
qed

lemma no_win1:
  assumes "wf_pieces ps" and "is_digit d"
  shows "\<not> prefix (''_STR_'' @ d # u) (mixed R n ps)"
proof
  assume p: "prefix (''_STR_'' @ d # u) (mixed R n ps)"
  from assms(1) have q0: "list_all quoted (literals ps)" by (rule wf_quoted)
  from mixed_head_underscore [OF q0, of "CHR ''S''" "''TR_'' @ d # u" R n] p
  obtain ps1 where 1: "ps = Chr CHR ''_'' # ps1" "prefix (''STR_'' @ d # u) (mixed R n ps1)"
    by auto
  from assms(1) 1 have "wf_pieces ps1" by (auto dest: wf_pieces_tail)
  from no_win0 [OF this assms(2)] 1(2) show False by blast
qed

section \<open>Replacing one placeholder\<close>

text \<open>No placeholder starts at a copied byte.\<close>

lemma no_match_at_Chr:
  assumes "wf_pieces (Chr c # ps)"
  shows "\<not> prefix (placeholder_of k) (mixed R n (Chr c # ps))"
proof
  assume p: "prefix (placeholder_of k) (mixed R n (Chr c # ps))"
  from placeholder_of_shape [of k] obtain d u where d: "is_digit d"
    and s: "placeholder_of k = ''__STR_'' @ d # u" by blast
  from p s have "prefix (''_STR_'' @ d # u) (mixed R n ps)" by auto
  moreover from assms have "wf_pieces ps" by (rule wf_pieces_tail)
  ultimately show False using no_win1 [OF _ d] by blast
qed

text \<open>No placeholder starts inside a literal that is written as it is.\<close>

lemma no_match_in_literal:
  assumes q: "quoted l" and n: "\<not> sublist ''STR_'' l"
  shows "\<forall>i < length l. \<not> prefix (placeholder_of k) (drop i (l @ t))"
proof (intro allI impI notI)
  fix i assume i: "i < length l" and p: "prefix (placeholder_of k) (drop i (l @ t))"
  let ?P = "placeholder_of k"
  let ?u = "drop i l"
  from i have u: "?u \<noteq> []" by simp
  from p i have p': "prefix ?P (?u @ t)" by simp
  have lu: "last ?u = last l" using i by simp
  from q have lq: "last l = dquote \<or> last l = squote" by (auto simp: quoted_def)
  show False
  proof (cases "length ?P \<le> length ?u")
    case True
    with p' have "prefix ?P ?u" by (auto simp: prefix_append)
    then have "sublist ?P l"
      by (meson prefix_imp_sublist sublist_drop sublist_order.order_trans)
    moreover have "sublist ''STR_'' ?P"
      unfolding placeholder_of_def sublist_def by (rule exI [of _ "''__''"]) auto
    ultimately have "sublist ''STR_'' l" by (rule sublist_order.order_trans [rotated])
    with n show False by simp
  next
    case False
    with p' have "prefix ?u ?P"
      by (auto simp: prefix_append dest: prefix_length_le)
    then have "set ?u \<subseteq> set ?P" by (auto simp: prefix_def)
    with u have "last ?u \<in> set ?P" by (meson last_in_set subsetD)
    then have "is_word (last ?u)" by (rule placeholder_of_word)
    with lu lq quote_not_word show False by auto
  qed
qed

text \<open>A placeholder is a prefix of another placeholder followed by any text only if they are equal.\<close>

lemma digit_run_eq:
  assumes "list_all is_digit a" "list_all is_digit b"
    and "prefix (a @ CHR ''_'' # u) (b @ CHR ''_'' # v)"
  shows "a = b"
  using assms
proof (induction a arbitrary: b)
  case Nil
  then show ?case by (cases b) (auto dest: digit_not_underscore)
next
  case (Cons x a)
  then show ?case by (cases b) (auto dest: digit_not_underscore)
qed

lemma placeholder_prefix_eq:
  assumes "prefix (placeholder_of k) (placeholder_of n @ t)"
  shows "k = n"
proof -
  have "list_all is_digit (fmt_d k)" "list_all is_digit (fmt_d n)"
    using fmt_d_digits by (simp_all add: list_all_iff)
  moreover from assms have "prefix (fmt_d k @ CHR ''_'' # ''_'') (fmt_d n @ CHR ''_'' # ''_'' @ t)"
    by (simp add: placeholder_of_def)
  ultimately have "fmt_d k = fmt_d n" by (rule digit_run_eq)
  then show ?thesis by (rule fmt_d_inj)
qed

text \<open>Another placeholder is copied whole by the replacement of placeholder \<open>k\<close>.\<close>

lemma skip_placeholder:
  assumes w: "wf_pieces ps" and ne: "n \<noteq> k"
  shows "strings_Replace (placeholder_of n @ mixed R m ps) (placeholder_of k) new
           = placeholder_of n @ strings_Replace (mixed R m ps) (placeholder_of k) new"
proof -
  let ?P = "placeholder_of k"
  let ?T = "mixed R m ps"
  from placeholder_of_shape [of k] obtain d u where d: "is_digit d"
    and s: "?P = ''__STR_'' @ d # u" by blast
  from fmt_d_Cons [of n] obtain e es where e: "fmt_d n = e # es" "is_digit e" by blast
  have a0: "\<not> prefix ?P (placeholder_of n @ ?T)"
    using placeholder_prefix_eq [of k n ?T] ne by blast
  have tail: "strings_Replace (''__'' @ ?T) ?P new = ''__'' @ strings_Replace ?T ?P new"
  proof -
    have "\<not> prefix ?P (''__'' @ ?T)" using no_win0 [OF w d, of u R m] s by simp
    moreover have "\<not> prefix ?P (''_'' @ ?T)" using no_win1 [OF w d, of u R m] s by simp
    ultimately show ?thesis by (simp add: strings_Replace_copy)
  qed
  have digits: "strings_Replace (fmt_d n @ ''__'' @ ?T) ?P new
      = fmt_d n @ strings_Replace (''__'' @ ?T) ?P new"
  proof (rule strings_Replace_skip, intro allI impI)
    fix i assume i: "i < length (fmt_d n)"
    then obtain x xs where x: "drop i (fmt_d n) = x # xs" by (cases "drop i (fmt_d n)") auto
    then have "x \<in> set (fmt_d n)" by (metis in_set_dropD list.set_intros(1))
    with fmt_d_digits have "is_digit x" by blast
    then have "x \<noteq> CHR ''_''" by (rule digit_not_underscore)
    with x i s show "\<not> prefix ?P (drop i (fmt_d n @ ''__'' @ ?T))" by simp
  qed
  have "strings_Replace (''__STR_'' @ fmt_d n @ ''__'' @ ?T) ?P new
      = ''__STR_'' @ strings_Replace (fmt_d n @ ''__'' @ ?T) ?P new"
  proof -
    have 1: "\<not> prefix ?P (''__STR_'' @ fmt_d n @ ''__'' @ ?T)"
      using a0 by (simp add: placeholder_of_def)
    have 2: "\<not> prefix ?P (''_STR_'' @ fmt_d n @ ''__'' @ ?T)" using s by simp
    have 3: "\<not> prefix ?P (''STR_'' @ fmt_d n @ ''__'' @ ?T)" using s by simp
    have 4: "\<not> prefix ?P (''TR_'' @ fmt_d n @ ''__'' @ ?T)" using s by simp
    have 5: "\<not> prefix ?P (''R_'' @ fmt_d n @ ''__'' @ ?T)" using s by simp
    have 6: "\<not> prefix ?P (''_'' @ fmt_d n @ ''__'' @ ?T)"
      using s e digit_not_underscore [OF e(2)] by simp
    from 1 2 3 4 5 6 show ?thesis by (simp add: strings_Replace_copy)
  qed
  with digits tail show ?thesis by (simp add: placeholder_of_def)
qed

lemma placeholder_of_nonempty: "placeholder_of k \<noteq> []"
  by (simp add: placeholder_of_def)

lemma wf_pieces_Quoted: "wf_pieces (Quoted l # ps) \<Longrightarrow> quoted l \<and> \<not> sublist ''STR_'' l"
  by (simp add: wf_pieces_def)

text \<open>
  Replacing placeholder \<open>k\<close> by its literal in a rendering changes exactly the literal
  number \<open>k\<close>, where it is still written as a placeholder.
\<close>

lemma restore_step:
  assumes "wf_pieces ps" and "lit_is n ps k new"
  shows "strings_Replace (mixed R n ps) (placeholder_of k) new = mixed (insert k R) n ps"
  using assms
proof (induction ps arbitrary: n)
  case Nil
  show ?case by simp
next
  case (Cons p ps)
  from Cons.prems(1) have w: "wf_pieces ps" by (rule wf_pieces_tail)
  show ?case
  proof (cases p)
    case (Chr c)
    with Cons.prems(1) have "\<not> prefix (placeholder_of k) (mixed R n (Chr c # ps))"
      by (intro no_match_at_Chr) simp
    then have "strings_Replace (mixed R n (Chr c # ps)) (placeholder_of k) new
        = c # strings_Replace (mixed R n ps) (placeholder_of k) new"
      by (simp add: strings_Replace_copy)
    with Cons.IH [OF w, of n] Cons.prems(2) Chr show ?thesis by simp
  next
    case (Quoted l)
    from Cons.prems(2) Quoted have li: "lit_is (Suc n) ps k new" and eq: "n = k \<Longrightarrow> new = l"
      by simp_all
    note ih = Cons.IH [OF w li]
    from Cons.prems(1) Quoted have ql: "quoted l" "\<not> sublist ''STR_'' l"
      using wf_pieces_Quoted by blast+
    show ?thesis
    proof (cases "n \<in> R")
      case True
      have "strings_Replace (l @ mixed R (Suc n) ps) (placeholder_of k) new
          = l @ strings_Replace (mixed R (Suc n) ps) (placeholder_of k) new"
        by (rule strings_Replace_skip) (rule no_match_in_literal [OF ql])
      with ih True Quoted show ?thesis by simp
    next
      case False
      show ?thesis
      proof (cases "n = k")
        case True
        have "strings_Replace (placeholder_of k @ mixed R (Suc n) ps) (placeholder_of k) new
            = new @ strings_Replace (mixed R (Suc n) ps) (placeholder_of k) new"
          by (rule strings_Replace_hit) (rule placeholder_of_nonempty)
        with ih True False eq Quoted show ?thesis by simp
      next
        case ne: False
        from skip_placeholder [OF w ne, of R "Suc n" new] ih False ne Quoted
        show ?thesis by simp
      qed
    qed
  qed
qed

section \<open>The restore loop\<close>

lemma lit_is_below: "k < n \<Longrightarrow> lit_is n ps k new"
proof (induction ps arbitrary: n)
  case Nil
  show ?case by simp
next
  case (Cons p ps)
  then show ?case by (cases p) simp_all
qed

lemma lit_is_Cons_Chr: "lit_is n (Chr c # ps) k new = lit_is n ps k new"
  by simp

lemma shield_table_entries:
  "(p, l) \<in> set (shield_table n ps)
     \<Longrightarrow> \<exists>k. p = placeholder_of k \<and> n \<le> k \<and> k < n + length (literals ps) \<and> lit_is n ps k l"
proof (induction ps arbitrary: n)
  case Nil
  then show ?case by (simp add: shield_table_Nil)
next
  case (Cons q ps)
  show ?case
  proof (cases q)
    case (Chr c)
    with Cons.prems have "(p, l) \<in> set (shield_table n ps)" by (simp add: shield_table_Chr)
    from Cons.IH [OF this] Chr show ?thesis by simp
  next
    case (Quoted l0)
    with Cons.prems have "(p, l) = (placeholder_of n, l0) \<or> (p, l) \<in> set (shield_table (Suc n) ps)"
      by (simp add: shield_table_Quoted)
    then show ?thesis
    proof
      assume "(p, l) = (placeholder_of n, l0)"
      with Quoted show ?thesis by (auto intro: lit_is_below)
    next
      assume "(p, l) \<in> set (shield_table (Suc n) ps)"
      from Cons.IH [OF this] obtain k where
        "p = placeholder_of k" "Suc n \<le> k" "k < Suc n + length (literals ps)" "lit_is (Suc n) ps k l"
        by blast
      with Quoted show ?thesis by (intro exI [of _ k]) auto
    qed
  qed
qed

lemma shield_table_keys:
  "fst ` set (shield_table n ps) = placeholder_of ` {n..<n + length (literals ps)}"
proof -
  have "map fst (shield_table n ps) = map placeholder_of [n..<n + length (literals ps)]"
    by (simp add: shield_table_def)
  then have "set (map fst (shield_table n ps)) = set (map placeholder_of [n..<n + length (literals ps)])"
    by simp
  then show ?thesis by simp
qed

text \<open>
  The restore loop, over any table whose entries name literals of the rendering, restores
  exactly the literals that the table names.
\<close>

lemma restore_all:
  assumes "wf_pieces ps"
    and "\<And>p l. (p, l) \<in> set tbl \<Longrightarrow> \<exists>k. p = placeholder_of k \<and> lit_is n ps k l"
  shows "restore_loop tbl (mixed R n ps)
           = mixed (R \<union> {k. placeholder_of k \<in> fst ` set tbl}) n ps"
  using assms(2)
proof (induction tbl arbitrary: R)
  case Nil
  show ?case by simp
next
  case (Cons e tbl)
  obtain p l where e: "e = (p, l)" by (cases e)
  from Cons.prems [of p l] e obtain k where k: "p = placeholder_of k" "lit_is n ps k l" by auto
  have st: "strings_Replace (mixed R n ps) p l = mixed (insert k R) n ps"
    unfolding k(1) using assms(1) k(2) by (rule restore_step)
  have ih: "restore_loop tbl (mixed (insert k R) n ps)
      = mixed (insert k R \<union> {k. placeholder_of k \<in> fst ` set tbl}) n ps"
    by (rule Cons.IH) (rule Cons.prems, simp)
  have "insert k R \<union> {j. placeholder_of j \<in> fst ` set tbl}
      = R \<union> {j. placeholder_of j \<in> fst ` set (e # tbl)}"
    using e k(1) by (auto dest: placeholder_of_inj)
  with st ih e show ?case by simp
qed

lemma mixed_all:
  "{n..<n + length (literals ps)} \<subseteq> R \<Longrightarrow> mixed R n ps = unparse ps"
proof (induction ps arbitrary: n)
  case Nil
  show ?case by simp
next
  case (Cons p ps)
  show ?case
  proof (cases p)
    case (Chr c)
    with Cons show ?thesis by simp
  next
    case (Quoted l)
    with Cons.prems have "n \<in> R" and "{Suc n..<Suc n + length (literals ps)} \<subseteq> R" by auto
    with Cons.IH [of "Suc n"] Quoted show ?thesis by simp
  qed
qed

lemma unparse_append: "unparse (a @ b) = unparse a @ unparse b"
proof (induction a)
  case Nil
  show ?case by simp
next
  case (Cons p a)
  then show ?case by (cases p) simp_all
qed

lemma unparse_map_Chr: "unparse (map Chr xs) = xs"
  by (induction xs) simp_all

lemma literals_append: "literals (a @ b) = literals a @ literals b"
proof (induction a)
  case Nil
  show ?case by simp
next
  case (Cons p a)
  then show ?case by (cases p) simp_all
qed

lemma literals_map_Chr: "literals (map Chr xs) = []"
  by (induction xs) simp_all

lemma literal_sublist: "l \<in> set (literals ps) \<Longrightarrow> sublist l (unparse ps)"
proof (induction ps)
  case Nil
  then show ?case by simp
next
  case (Cons p ps)
  show ?case
  proof (cases p)
    case (Chr c)
    with Cons show ?thesis by (auto simp: sublist_Cons_right)
  next
    case (Quoted l0)
    with Cons.prems have "l = l0 \<or> l \<in> set (literals ps)" by auto
    then show ?thesis
    proof
      assume "l = l0"
      with Quoted show ?thesis by (simp add: sublist_append_rightI)
    next
      assume "l \<in> set (literals ps)"
      then have "sublist l (unparse ps)" by (rule Cons.IH)
      then obtain a b where "unparse ps = a @ l @ b" by (auto simp: sublist_def)
      then have "l0 @ unparse ps = (l0 @ a) @ l @ b" by simp
      then have "sublist l (l0 @ unparse ps)" unfolding sublist_def by blast
      with Quoted show ?thesis by simp
    qed
  qed
qed

lemma wf_pieces_of_text:
  assumes "\<not> sublist ''STR_'' s"
  shows "wf_pieces (pieces s)"
proof -
  have u: "unparse (pieces s) = s" by (rule unparse_pieces)
  have q: "list_all quoted (literals (pieces s))" by (rule literals_pieces_quoted)
  have f: "\<not> sublist ''STR_'' l" if "l \<in> set (literals (pieces s))" for l
  proof
    assume "sublist ''STR_'' l"
    moreover from that have "sublist l s" using literal_sublist [of l "pieces s"] u by simp
    ultimately have "sublist ''STR_'' s" by (rule sublist_order.order_trans)
    with assms show False ..
  qed
  have r: "\<not> sublist (map Chr ''STR_'') (pieces s)"
  proof
    assume "sublist (map Chr ''STR_'') (pieces s)"
    then obtain a b where "pieces s = a @ map Chr ''STR_'' @ b" by (auto simp: sublist_def)
    then have "unparse (pieces s) = unparse a @ ''STR_'' @ unparse b"
      by (simp only: unparse_append unparse_map_Chr)
    with u have "sublist ''STR_'' s" by (metis sublist_appendI)
    with assms show False ..
  qed
  from q f r show ?thesis by (auto simp: wf_pieces_def list_all_iff)
qed

text \<open>
  Shielding a text free of \<open>STR_\<close> and then restoring the table, in any order of its
  entries, gives the text back.
\<close>

lemma shield_restore:
  assumes "\<not> sublist ''STR_'' code" and "set tbl' = set (shield_table 0 (pieces code))"
  shows "restore_loop tbl' (mixed {} 0 (pieces code)) = code"
proof -
  let ?ps = "pieces code"
  have w: "wf_pieces ?ps" using assms(1) by (rule wf_pieces_of_text)
  have e: "\<exists>k. p = placeholder_of k \<and> lit_is 0 ?ps k l" if "(p, l) \<in> set tbl'" for p l
    using that assms(2) shield_table_entries [of p l 0 ?ps] by auto
  have "restore_loop tbl' (mixed {} 0 ?ps)
      = mixed ({} \<union> {k. placeholder_of k \<in> fst ` set tbl'}) 0 ?ps"
    using w e by (rule restore_all)
  also have "fst ` set tbl' = placeholder_of ` {0..<0 + length (literals ?ps)}"
    unfolding assms(2) by (rule shield_table_keys)
  also have "mixed ({} \<union> {k. placeholder_of k \<in> placeholder_of ` {0..<0 + length (literals ?ps)}}) 0 ?ps
      = unparse ?ps"
    by (rule mixed_all) auto
  finally show ?thesis by (simp add: unparse_pieces)
qed

section \<open>Shielding and restoring\<close>

lemma shield_scan_empty:
  "ReplaceAllStringFunc re_string shield_fn [] None code
     = Inr (mixed {} 0 (pieces code), shield_table 0 (pieces code))"
  using shield_scan [of "[]" None code] by simp

lemma shield_table_distinct: "distinct (map fst (shield_table n ps))"
proof -
  have "map fst (shield_table n ps) = map placeholder_of [n..<n + length (literals ps)]"
    by (simp add: shield_table_def)
  moreover have "inj_on placeholder_of (set [n..<n + length (literals ps)])"
    by (rule inj_onI) (rule placeholder_of_inj)
  ultimately show ?thesis by (simp add: distinct_map)
qed

section \<open>Scans over a shielded buffer\<close>

lemma mixed_map_Chr: "mixed R n (map Chr xs @ ps) = xs @ mixed R n ps"
  by (induction xs) simp_all

lemma placeholder_has_STR: "sublist ''STR_'' (placeholder_of k)"
proof -
  have "placeholder_of k = ''__'' @ ''STR_'' @ (fmt_d k @ ''__'')" by (simp add: placeholder_of_def)
  then show ?thesis unfolding sublist_def by blast
qed

lemma sublist_split:
  assumes "sublist xs (a @ b @ c)" and "b \<noteq> []" and "set b \<inter> set xs = {}"
  shows "sublist xs a \<or> sublist xs c"
proof (cases "xs = []")
  case True
  then show ?thesis by simp
next
  case False
  have nb: "\<not> sublist xs b"
  proof
    assume "sublist xs b"
    then have "set xs \<subseteq> set b" by (rule set_mono_sublist)
    with False assms(3) show False by (cases xs) auto
  qed
  have ns: "\<not> (suffix x1 b \<and> x1 \<noteq> [] \<and> xs = x1 @ x2)" for x1 x2
  proof
    assume a: "suffix x1 b \<and> x1 \<noteq> [] \<and> xs = x1 @ x2"
    then have "set x1 \<subseteq> set b" by (auto dest: set_mono_suffix)
    moreover from a have "hd x1 \<in> set x1" "hd x1 \<in> set xs" by auto
    ultimately show False using assms(3) by auto
  qed
  have np: "\<not> (prefix x2 (b @ c) \<and> x2 \<noteq> [] \<and> xs = x1 @ x2)" for x1 x2
  proof
    assume a: "prefix x2 (b @ c) \<and> x2 \<noteq> [] \<and> xs = x1 @ x2"
    then obtain y ys where x2: "x2 = y # ys" by (cases x2) auto
    from assms(2) obtain z zs where b: "b = z # zs" by (cases b) auto
    from a x2 b have "y = z" by simp
    with a x2 b assms(3) show False by auto
  qed
  have two: "sublist xs c" if "sublist xs (b @ c)"
  proof -
    from that consider "sublist xs b" | "sublist xs c"
      | x1 x2 where "xs = x1 @ x2" "suffix x1 b" "prefix x2 c"
      by (auto simp: sublist_append)
    then show ?thesis
    proof cases
      case 1
      with nb show ?thesis ..
    next
      case 2
      then show ?thesis .
    next
      case 3
      show ?thesis
      proof (cases "x1 = []")
        case True
        with 3 show ?thesis by (auto intro: prefix_imp_sublist)
      next
        case False
        with 3 ns [of x1 x2] show ?thesis by blast
      qed
    qed
  qed
  from assms(1) consider "sublist xs a" | "sublist xs (b @ c)"
    | x1 x2 where "xs = x1 @ x2" "suffix x1 a" "prefix x2 (b @ c)"
    by (auto simp: sublist_append)
  then show ?thesis
  proof cases
    case 1
    then show ?thesis ..
  next
    case 2
    then show ?thesis using two by blast
  next
    case 3
    show ?thesis
    proof (cases "x2 = []")
      case True
      with 3 show ?thesis by (auto intro: suffix_imp_sublist)
    next
      case False
      with 3 np [of x2 x1] show ?thesis by blast
    qed
  qed
qed

text \<open>
  A prefix of a shielded buffer that is free of \<open>STR_\<close> and ends at the end of a word
  consists of copied bytes only.
\<close>

lemma plain_prefix:
  assumes "j \<le> length (mixed {} n ps)"
    and "\<not> sublist ''STR_'' (take j (mixed {} n ps))"
    and "j = 0 \<or> (is_word (last (take j (mixed {} n ps))) \<and> boundary_at (mixed {} n ps) j)"
  shows "\<exists>ps2. ps = map Chr (take j (mixed {} n ps)) @ ps2
           \<and> drop j (mixed {} n ps) = mixed {} n ps2"
  using assms
proof (induction ps arbitrary: j)
  case Nil
  then show ?case by simp
next
  case (Cons p ps)
  show ?case
  proof (cases j)
    case 0
    then show ?thesis by simp
  next
    case (Suc j1)
    show ?thesis
    proof (cases p)
      case (Chr c)
      let ?t = "mixed {} n ps"
      from Cons.prems(1) Suc Chr have l: "j1 \<le> length ?t" by simp
      from Cons.prems(2) Suc Chr have s: "\<not> sublist ''STR_'' (take j1 ?t)"
        by (auto simp: sublist_Cons_right)
      have b: "j1 = 0 \<or> (is_word (last (take j1 ?t)) \<and> boundary_at ?t j1)"
      proof (cases j1)
        case 0
        then show ?thesis by simp
      next
        case (Suc j2)
        with l have ne: "take j1 ?t \<noteq> []" by auto
        with Cons.prems(3) \<open>j = Suc j1\<close> Chr show ?thesis
          by (simp add: boundary_at_def)
      qed
      from Cons.IH [OF l s b] obtain ps2 where
        a: "ps = map Chr (take j1 ?t) @ ps2" and d: "drop j1 ?t = mixed {} n ps2" by blast
      have "map Chr (take j (mixed {} n (p # ps))) @ ps2 = Chr c # (map Chr (take j1 ?t) @ ps2)"
        using Suc Chr by simp
      also have "\<dots> = p # ps" using a [symmetric] Chr by simp
      finally have "p # ps = map Chr (take j (mixed {} n (p # ps))) @ ps2" by (rule sym)
      moreover have "drop j (mixed {} n (p # ps)) = mixed {} n ps2" using d Suc Chr by simp
      ultimately show ?thesis by blast
    next
      case (Quoted l)
      let ?P = "placeholder_of n"
      let ?t = "mixed {} (Suc n) ps"
      have t: "mixed {} n (p # ps) = ?P @ ?t" using Quoted by simp
      show ?thesis
      proof (cases "length ?P \<le> j")
        case True
        then have "take j (?P @ ?t) = ?P @ take (j - length ?P) ?t" by simp
        moreover from placeholder_has_STR [of n] obtain a b where "?P = a @ ''STR_'' @ b"
          by (auto simp: sublist_def)
        ultimately have "take j (?P @ ?t) = a @ ''STR_'' @ (b @ take (j - length ?P) ?t)" by simp
        then have "sublist ''STR_'' (take j (?P @ ?t))" unfolding sublist_def by blast
        with Cons.prems(2) t show ?thesis by simp
      next
        case False
        then have lt: "j < length ?P" by simp
        then have tk: "take j (?P @ ?t) = take j ?P" and dr: "drop j (?P @ ?t) = drop j ?P @ ?t"
          by simp_all
        from lt Suc have "take j ?P \<noteq> []" by auto
        then have "last (take j ?P) \<in> set (take j ?P)" by (rule last_in_set)
        then have "last (take j ?P) \<in> set ?P" by (rule in_set_takeD)
        then have w1: "is_word (last (take j ?P))" by (rule placeholder_of_word)
        from lt obtain y ys where d: "drop j ?P = y # ys" by (cases "drop j ?P") auto
        then have "y \<in> set (drop j ?P)" by simp
        then have "y \<in> set ?P" by (rule in_set_dropD)
        then have w2: "is_word y" by (rule placeholder_of_word)
        from Cons.prems(3) Suc t tk dr d have "boundary_at (?P @ ?t) j" by simp
        with tk dr d w1 w2 show ?thesis
          by (simp add: boundary_at_def word_boundary_def next_char_def)
      qed
    qed
  qed
qed

text \<open>A stretch of text where the pattern matches at no position is copied.\<close>

lemma scan_skip:
  assumes "a \<noteq> []"
    and "\<And>i j. i < length a \<Longrightarrow>
           re (if i = 0 then prev else Some (a ! (i - 1))) (drop i a @ b) \<noteq> Some (Suc j)"
  shows "ReplaceAllStringFunc re f st prev (a @ b)
           = (case ReplaceAllStringFunc re f st (Some (last a)) b of
                Inl e \<Rightarrow> Inl e
              | Inr (out, st') \<Rightarrow> Inr (a @ out, st'))"
  using assms
proof (induction a arbitrary: prev)
  case Nil
  then show ?case by simp
next
  case (Cons x a)
  from Cons.prems(2) [of 0] have nm: "\<And>j. re prev (x # a @ b) \<noteq> Some (Suc j)" by simp
  have step: "ReplaceAllStringFunc re f st prev (x # a @ b)
      = (case ReplaceAllStringFunc re f st (Some x) (a @ b) of
           Inl e \<Rightarrow> Inl e | Inr (out, st') \<Rightarrow> Inr (x # out, st'))"
    using nm by (rule ReplaceAllStringFunc_Cons_copy)
  show ?case
  proof (cases a)
    case Nil
    with step show ?thesis by (simp split: sum.splits prod.splits)
  next
    case (Cons y a')
    have "ReplaceAllStringFunc re f st (Some x) (a @ b)
        = (case ReplaceAllStringFunc re f st (Some (last a)) b of
             Inl e \<Rightarrow> Inl e | Inr (out, st') \<Rightarrow> Inr (a @ out, st'))"
    proof (rule Cons.IH)
      show "a \<noteq> []" using Cons by simp
    next
      fix i j
      assume i: "i < length a"
      from Cons.prems(2) [of "Suc i" j] i
      show "re (if i = 0 then Some x else Some (a ! (i - 1))) (drop i a @ b) \<noteq> Some (Suc j)"
        by (cases i) simp_all
    qed
    with step Cons show ?thesis by (simp split: sum.splits prod.splits)
  qed
qed

text \<open>What a scan that returns has done at its first position.\<close>

lemma scan_match_Inr:
  assumes "re prev (c # cs) = Some (Suc j)"
    and "ReplaceAllStringFunc re f st prev (c # cs) = Inr (out, st')"
  shows "\<exists>r st1 out1. f st (c # take j cs) = Inr (r, st1)
           \<and> ReplaceAllStringFunc re f st1 (Some (last (c # take j cs))) (drop j cs) = Inr (out1, st')
           \<and> out = r @ out1"
proof -
  define p' where "p' = Some (last (c # take j cs))"
  have e: "ReplaceAllStringFunc re f st prev (c # cs)
      = (case f st (c # take j cs) of
           Inl e \<Rightarrow> Inl e
         | Inr (r, st1) \<Rightarrow>
             (case ReplaceAllStringFunc re f st1 p' (drop j cs) of
                Inl e \<Rightarrow> Inl e
              | Inr (out, st'') \<Rightarrow> Inr (r @ out, st'')))"
    using assms(1) unfolding p'_def by (rule ReplaceAllStringFunc_Cons_match)
  show ?thesis
  proof (cases "f st (c # take j cs)")
    case (Inl x)
    with e assms(2) show ?thesis by simp
  next
    case (Inr y)
    obtain r st1 where y: "y = (r, st1)" by (cases y)
    show ?thesis
    proof (cases "ReplaceAllStringFunc re f st1 p' (drop j cs)")
      case (Inl x)
      with e assms(2) Inr y show ?thesis by simp
    next
      case Inr2: (Inr z)
      obtain out1 st2 where z: "z = (out1, st2)" by (cases z)
      from e assms(2) Inr y Inr2 z have "out = r @ out1" "st2 = st'" by simp_all
      with Inr y Inr2 z show ?thesis unfolding p'_def by simp
    qed
  qed
qed

lemma scan_copy_Inr:
  assumes "\<And>j. re prev (c # cs) \<noteq> Some (Suc j)"
    and "ReplaceAllStringFunc re f st prev (c # cs) = Inr (out, st')"
  shows "\<exists>out1. ReplaceAllStringFunc re f st (Some c) cs = Inr (out1, st') \<and> out = c # out1"
proof -
  have e: "ReplaceAllStringFunc re f st prev (c # cs)
      = (case ReplaceAllStringFunc re f st (Some c) cs of
           Inl e \<Rightarrow> Inl e | Inr (out, st') \<Rightarrow> Inr (c # out, st'))"
    using assms(1) by (rule ReplaceAllStringFunc_Cons_copy)
  show ?thesis
  proof (cases "ReplaceAllStringFunc re f st (Some c) cs")
    case (Inl x)
    with e assms(2) show ?thesis by simp
  next
    case (Inr z)
    obtain out1 st2 where z: "z = (out1, st2)" by (cases z)
    from e assms(2) Inr z have "out = c # out1" "st2 = st'" by simp_all
    with Inr z show ?thesis by simp
  qed
qed

text \<open>A property of the captured state that every call of the closure keeps.\<close>

lemma scan_invariant:
  assumes step: "\<And>st t r st1. J st \<Longrightarrow> E t \<Longrightarrow> f st t = Inr (r, st1) \<Longrightarrow> J st1"
    and m: "\<And>prev t j. re prev t = Some (Suc j) \<Longrightarrow> E (take (Suc j) t)"
    and run: "ReplaceAllStringFunc re f st prev s = Inr (out, st')"
    and "J st"
  shows "J st'"
  using run \<open>J st\<close>
proof (induction s arbitrary: st prev out rule: length_induct)
  case (1 s)
  show ?case
  proof (cases s)
    case Nil
    with 1(2,3) show ?thesis by simp
  next
    case (Cons c cs)
    show ?thesis
    proof (cases "\<exists>j. re prev (c # cs) = Some (Suc j)")
      case True
      then obtain j where mt: "re prev (c # cs) = Some (Suc j)" ..
      from 1(2) have run': "ReplaceAllStringFunc re f st prev (c # cs) = Inr (out, st')"
        unfolding Cons .
      from scan_match_Inr [OF mt run'] obtain r st1 out1 where
        f: "f st (c # take j cs) = Inr (r, st1)"
        and rest: "ReplaceAllStringFunc re f st1 (Some (last (c # take j cs))) (drop j cs)
                     = Inr (out1, st')"
        by blast
      from m [OF mt] have "E (c # take j cs)" by simp
      with 1(3) have "J st1" using f by (rule step)
      moreover have "length (drop j cs) < length s" using Cons by simp
      ultimately show ?thesis using 1(1) rest by blast
    next
      case False
      then have nm: "\<And>j. re prev (c # cs) \<noteq> Some (Suc j)" by blast
      from 1(2) have run': "ReplaceAllStringFunc re f st prev (c # cs) = Inr (out, st')"
        unfolding Cons .
      from scan_copy_Inr [OF nm run'] obtain out1 where
        rest: "ReplaceAllStringFunc re f st (Some c) cs = Inr (out1, st')" by blast
      have "length cs < length s" using Cons by simp
      with 1(1) rest 1(3) show ?thesis by blast
    qed
  qed
qed

lemma run_Cons:
  assumes "\<forall>pre. \<not> sublist (map Chr ''STR_'') (pre @ ps) \<longrightarrow> \<not> sublist (map Chr ''STR_'') (pre @ ps')"
  shows "\<not> sublist (map Chr ''STR_'') (pre @ p # ps) \<longrightarrow> \<not> sublist (map Chr ''STR_'') (pre @ p # ps')"
  using assms [rule_format, of "pre @ [p]"] by simp

text \<open>
  A scan over a shielded buffer whose pattern matches whole words only, and only texts
  free of \<open>STR_\<close>, rewrites copied bytes and leaves every placeholder where it is.
\<close>

lemma scan_pieces:
  fixes f :: "'s \<Rightarrow> string \<Rightarrow> panic + (string \<times> 's)"
  assumes M: "\<And>prev t j. re prev t = Some (Suc j) \<Longrightarrow>
                 \<not> (case prev of None \<Rightarrow> False | Some x \<Rightarrow> is_word x) \<and> Suc j \<le> length t
                 \<and> is_word (last (take (Suc j) t)) \<and> boundary_at t (Suc j)
                 \<and> E (take (Suc j) t)"
    and F: "\<And>st t r st1. I st \<Longrightarrow> E t \<Longrightarrow> f st t = Inr (r, st1) \<Longrightarrow>
                 I st1 \<and> B st1 t \<and> r \<noteq> [] \<and> set r \<inter> set ''STR_'' = {}"
    and K: "\<And>st t r st1 t'. I st \<Longrightarrow> E t \<Longrightarrow> f st t = Inr (r, st1) \<Longrightarrow> B st t' \<Longrightarrow> B st1 t'"
    and fin: "\<And>t. B st' t \<Longrightarrow> \<not> sublist ''STR_'' t"
    and run: "ReplaceAllStringFunc re f st prev (mixed {} n ps) = Inr (out, st')"
    and "I st"
  shows "\<exists>ps'. out = mixed {} n ps' \<and> literals ps' = literals ps
           \<and> (\<forall>pre. \<not> sublist (map Chr ''STR_'') (pre @ ps)
                  \<longrightarrow> \<not> sublist (map Chr ''STR_'') (pre @ ps'))"
  using run \<open>I st\<close>
proof (induction ps arbitrary: st prev n out rule: length_induct)
  case (1 ps)
  let ?t = "mixed {} n ps"
  let ?run = "map Chr ''STR_''"
  show ?case
  proof (cases "\<exists>j. re prev ?t = Some (Suc j)")
    case True
    then obtain j where m: "re prev ?t = Some (Suc j)" ..
    from M [OF m] have le: "Suc j \<le> length ?t" and lw: "is_word (last (take (Suc j) ?t))"
      and bd: "boundary_at ?t (Suc j)" and e: "E (take (Suc j) ?t)"
      by simp_all
    from le obtain c cs where t: "?t = c # cs" by (cases ?t) auto
    define mt where "mt = c # take j cs"
    have mt: "take (Suc j) ?t = mt" by (simp add: t mt_def)
    from m have m': "re prev (c # cs) = Some (Suc j)" by (simp add: t)
    from 1(2) have run': "ReplaceAllStringFunc re f st prev (c # cs) = Inr (out, st')"
      by (simp add: t)
    from scan_match_Inr [OF m' run'] obtain r st1 out1 where
      f: "f st mt = Inr (r, st1)"
      and rest: "ReplaceAllStringFunc re f st1 (Some (last mt)) (drop j cs) = Inr (out1, st')"
      and out: "out = r @ out1"
      unfolding mt_def by blast
    from e have emt: "E mt" by (simp add: mt)
    from F [OF 1(3) emt f] have i1: "I st1" and b1: "B st1 mt" and rne: "r \<noteq> []"
      and rs: "set r \<inter> set ''STR_'' = {}" by simp_all
    have "I st' \<and> B st' mt"
    proof (rule scan_invariant [where J = "\<lambda>s. I s \<and> B s mt" and E = E and f = f and re = re
          and st = st1 and prev = "Some (last mt)" and s = "drop j cs" and out = out1])
      fix s t r' s1
      assume "I s \<and> B s mt" and "E t" and "f s t = Inr (r', s1)"
      with F [of s t r' s1] K [of s t r' s1 mt] show "I s1 \<and> B s1 mt" by blast
    next
      fix p t k
      assume "re p t = Some (Suc k)"
      from M [OF this] show "E (take (Suc k) t)" by simp
    next
      show "ReplaceAllStringFunc re f st1 (Some (last mt)) (drop j cs) = Inr (out1, st')"
        by (rule rest)
    next
      show "I st1 \<and> B st1 mt" using i1 b1 ..
    qed
    then have "\<not> sublist ''STR_'' mt" using fin by blast
    then have ns: "\<not> sublist ''STR_'' (take (Suc j) ?t)" by (simp add: mt)
    from lw bd have "Suc j = 0 \<or> (is_word (last (take (Suc j) ?t)) \<and> boundary_at ?t (Suc j))"
      by simp
    from plain_prefix [OF le ns this] obtain ps2 where
      ps: "ps = map Chr mt @ ps2" and dr: "drop (Suc j) ?t = mixed {} n ps2"
      unfolding mt by blast
    from dr have dr': "drop j cs = mixed {} n ps2" by (simp add: t)
    have "length ps2 < length ps" by (simp add: ps mt_def)
    moreover have "ReplaceAllStringFunc re f st1 (Some (last mt)) (mixed {} n ps2) = Inr (out1, st')"
      using rest by (simp add: dr')
    ultimately obtain ps2' where o1: "out1 = mixed {} n ps2'"
      and l1: "literals ps2' = literals ps2"
      and r1: "\<forall>pre. \<not> sublist ?run (pre @ ps2) \<longrightarrow> \<not> sublist ?run (pre @ ps2')"
      using 1(1) i1 by blast
    define ps' where "ps' = map Chr r @ ps2'"
    have "out = mixed {} n ps'" by (simp add: out o1 ps'_def mixed_map_Chr)
    moreover have "literals ps' = literals ps"
      by (simp add: ps'_def ps literals_append literals_map_Chr l1)
    moreover have "\<not> sublist ?run (pre @ ps')" if a: "\<not> sublist ?run (pre @ ps)" for pre
    proof
      assume "sublist ?run (pre @ ps')"
      then have s: "sublist ?run (pre @ map Chr r @ ps2')" by (simp add: ps'_def)
      have "map Chr r \<noteq> []" using rne by simp
      moreover have "set (map Chr r) \<inter> set ?run = {}" using rs by auto
      ultimately have "sublist ?run pre \<or> sublist ?run ps2'" using s by (intro sublist_split)
      then show False
      proof
        assume "sublist ?run pre"
        then have "sublist ?run (pre @ ps)" by (simp add: sublist_append)
        with a show False ..
      next
        assume "sublist ?run ps2'"
        with r1 [rule_format, of "[]"] have "sublist ?run ps2" by auto
        then have "sublist ?run ((pre @ map Chr mt) @ ps2)" by (simp only: sublist_append) simp
        with a ps show False by simp
      qed
    qed
    ultimately show ?thesis by blast
  next
    case False
    then have nm: "\<And>j. re prev ?t \<noteq> Some (Suc j)" by blast
    show ?thesis
    proof (cases ps)
      case Nil
      with 1(2) have "out = []" by simp
      with Nil show ?thesis by (intro exI [of _ "[]"]) simp
    next
      case (Cons p ps1)
      have lt: "length ps1 < length ps" using Cons by simp
      show ?thesis
      proof (cases p)
        case (Chr c)
        have t: "?t = c # mixed {} n ps1" using Cons Chr by simp
        from nm have nm': "\<And>j. re prev (c # mixed {} n ps1) \<noteq> Some (Suc j)" by (simp add: t)
        from 1(2) have run': "ReplaceAllStringFunc re f st prev (c # mixed {} n ps1) = Inr (out, st')"
          by (simp add: t)
        from scan_copy_Inr [OF nm' run'] obtain out1 where
          rest: "ReplaceAllStringFunc re f st (Some c) (mixed {} n ps1) = Inr (out1, st')"
          and out: "out = c # out1" by blast
        from 1(1) lt rest 1(3) obtain ps1' where o1: "out1 = mixed {} n ps1'"
          and l1: "literals ps1' = literals ps1"
          and r1: "\<forall>pre. \<not> sublist ?run (pre @ ps1) \<longrightarrow> \<not> sublist ?run (pre @ ps1')"
          by blast
        have "out = mixed {} n (Chr c # ps1')" by (simp add: out o1)
        moreover have "literals (Chr c # ps1') = literals ps" by (simp add: Cons Chr l1)
        moreover have "\<forall>pre. \<not> sublist ?run (pre @ ps) \<longrightarrow> \<not> sublist ?run (pre @ Chr c # ps1')"
          unfolding Cons Chr using run_Cons [OF r1] by blast
        ultimately show ?thesis by blast
      next
        case (Quoted l)
        let ?P = "placeholder_of n"
        have t: "?t = ?P @ mixed {} (Suc n) ps1" using Cons Quoted by simp
        have ne: "?P \<noteq> []" by (rule placeholder_of_nonempty)
        have sk: "re (if i = 0 then prev else Some (?P ! (i - 1))) (drop i ?P @ mixed {} (Suc n) ps1)
            \<noteq> Some (Suc j)" if i: "i < length ?P" for i j
        proof (cases i)
          case 0
          with nm [of j] t show ?thesis by simp
        next
          case (Suc i')
          with i have "?P ! i' \<in> set ?P" by simp
          then have "is_word (?P ! i')" by (rule placeholder_of_word)
          with M [of "Some (?P ! i')" "drop i ?P @ mixed {} (Suc n) ps1" j] Suc
          show ?thesis by auto
        qed
        have "ReplaceAllStringFunc re f st prev (?P @ mixed {} (Suc n) ps1)
            = (case ReplaceAllStringFunc re f st (Some (last ?P)) (mixed {} (Suc n) ps1) of
                 Inl e \<Rightarrow> Inl e | Inr (out, st') \<Rightarrow> Inr (?P @ out, st'))"
          using ne sk by (rule scan_skip)
        with 1(2) t have c: "(case ReplaceAllStringFunc re f st (Some (last ?P)) (mixed {} (Suc n) ps1) of
                 Inl e \<Rightarrow> Inl e | Inr (out, st') \<Rightarrow> Inr (?P @ out, st')) = Inr (out, st')"
          by simp
        obtain out1 where
          rest: "ReplaceAllStringFunc re f st (Some (last ?P)) (mixed {} (Suc n) ps1) = Inr (out1, st')"
          and out: "out = ?P @ out1"
        proof (cases "ReplaceAllStringFunc re f st (Some (last ?P)) (mixed {} (Suc n) ps1)")
          case (Inl x)
          with c show ?thesis by simp
        next
          case (Inr z)
          obtain o1 s2 where z: "z = (o1, s2)" by (cases z)
          with c Inr have "out = ?P @ o1" "s2 = st'" by simp_all
          with Inr z that show ?thesis by simp
        qed
        from 1(1) lt rest 1(3) obtain ps1' where o1: "out1 = mixed {} (Suc n) ps1'"
          and l1: "literals ps1' = literals ps1"
          and r1: "\<forall>pre. \<not> sublist ?run (pre @ ps1) \<longrightarrow> \<not> sublist ?run (pre @ ps1')"
          by blast
        have "out = mixed {} n (Quoted l # ps1')" by (simp add: out o1)
        moreover have "literals (Quoted l # ps1') = literals ps" by (simp add: Cons Quoted l1)
        moreover have "\<forall>pre. \<not> sublist ?run (pre @ ps) \<longrightarrow> \<not> sublist ?run (pre @ Quoted l # ps1')"
          unfolding Cons Quoted using run_Cons [OF r1] by blast
        ultimately show ?thesis by blast
      qed
    qed
  qed
qed

section \<open>The declaration scan over a shielded buffer\<close>

text \<open>The shape of a match of the declaration pattern.\<close>

lemma re_decl_sub_shape:
  assumes "re_decl_sub prev s = Some (n, g1, g2)"
  shows "\<exists>ws rest. s = g1 @ ws @ g2 @ rest \<and> n = length g1 + length ws + length g2
           \<and> g1 \<in> set decl_keywords \<and> ws \<noteq> [] \<and> list_all is_space ws
           \<and> good_ident g2 \<and> is_ident_start (hd g2)
           \<and> word_boundary prev (next_char s)
           \<and> word_boundary (Some (last g2)) (next_char rest)"
proof -
  from assms obtain kw c r'' j where
    wb: "word_boundary prev (next_char s)"
    and kw: "find (\<lambda>k. prefix k s) decl_keywords = Some kw"
    and w0: "spaces (drop (length kw) s) \<noteq> 0"
    and r': "drop (spaces (drop (length kw) s)) (drop (length kw) s) = c # r''"
    and st: "is_ident_start c"
    and e: "ident_end (c # r'') (length (takeWhile is_ident_char (c # r''))) = Some j"
    and g: "g1 = kw" "g2 = take j (c # r'')"
    and n: "n = length kw + spaces (drop (length kw) s) + j"
    by (auto simp: re_decl_sub_def Let_def split: if_splits option.splits list.splits)
  define r where "r = drop (length kw) s"
  define ws where "ws = takeWhile is_space r"
  define rest where "rest = drop j (c # r'')"
  from kw have "prefix kw s" by (auto simp: find_Some_iff)
  then have s1: "s = kw @ r" by (auto simp: prefix_def r_def)
  have "r = takeWhile is_space r @ dropWhile is_space r" by simp
  also have "dropWhile is_space r = drop (spaces r) r" by (rule drop_spaces [symmetric])
  also have "\<dots> = c # r''" using r' unfolding r_def .
  finally have r1: "r = ws @ c # r''" by (simp add: ws_def)
  from ident_end_Some [OF e] have j: "1 \<le> j" "j \<le> length (takeWhile is_ident_char (c # r''))"
    and b: "boundary_at (c # r'') j" by auto
  have jl: "j \<le> length (c # r'')"
    using j(2) length_takeWhile_le [of is_ident_char "c # r''"] by (rule le_trans)
  have r2: "c # r'' = g2 @ rest" by (simp add: g rest_def)
  have lg: "length g2 = j" using jl by (simp add: g)
  have lw: "length ws = spaces (drop (length kw) s)" by (simp add: ws_def spaces_def r_def)
  have ne: "ws \<noteq> []" using w0 lw by auto
  have sp: "list_all is_space ws" by (auto simp: ws_def list_all_iff dest: set_takeWhileD)
  from re_decl_sub_Some [OF assms] have k: "g1 \<in> set decl_keywords" and gi: "good_ident g2"
    by simp_all
  have hd: "hd g2 = c" using j(1) by (cases j) (simp_all add: g)
  have "s = kw @ ws @ g2 @ rest" using s1 r1 r2 by simp
  moreover have "n = length g1 + length ws + length g2" by (simp add: n g(1) lw lg)
  moreover have "word_boundary (Some (last g2)) (next_char rest)"
    using b by (simp add: boundary_at_def g rest_def)
  ultimately show ?thesis using k ne sp gi hd st wb g(1) by blast
qed

lemma keyword_cases: "g \<in> set decl_keywords \<Longrightarrow> g = ''var'' \<or> g = ''let'' \<or> g = ''const''"
  by (auto simp: decl_keywords_def)

lemma ident_start_not_space: "is_ident_start c \<Longrightarrow> \<not> is_space c"
  by (auto simp: is_ident_start_def is_space_def is_letter_def)

text \<open>Matching the pattern again on the matched text finds the same groups.\<close>

lemma decl_rematch:
  assumes k: "g1 \<in> set decl_keywords" and ne: "ws \<noteq> []" and sp: "list_all is_space ws"
    and gi: "good_ident g2" and st: "is_ident_start (hd g2)"
  shows "FindStringSubmatch re_decl_sub None (g1 @ ws @ g2) = [g1 @ ws @ g2, g1, g2]"
proof -
  let ?t = "g1 @ ws @ g2"
  from gi obtain c r where g2: "g2 = c # r" by (cases g2) (auto simp: good_ident_def)
  from gi have ic: "list_all is_ident_char g2" and lw: "is_word (last g2)"
    by (simp_all add: good_ident_def)
  from st g2 have nsp: "\<not> is_space c" by (simp add: ident_start_not_space)
  have f: "find (\<lambda>k. prefix k (g1 @ ws @ c # r)) decl_keywords = Some g1"
    using keyword_cases [OF k] by (auto simp: decl_keywords_def)
  have wb: "word_boundary None (next_char (g1 @ ws @ c # r))"
    using keyword_cases [OF k]
    by (auto simp: word_boundary_def next_char_def is_word_def is_letter_def)
  have tw: "takeWhile is_space (ws @ c # r) = ws"
    using sp nsp by (simp add: list_all_iff takeWhile_append2)
  then have spaces: "spaces (ws @ c # r) = length ws" by (simp add: spaces_def)
  have tk: "takeWhile is_ident_char (c # r) = c # r"
    using ic unfolding g2 by (simp only: takeWhile_eq_all_conv list_all_iff) 
  have "word_boundary (Some (last (c # r))) None" using lw by (simp add: word_boundary_def g2)
  then have ie: "ident_end (c # r) (Suc (length r)) = Some (Suc (length r))"
    by (simp add: next_char_def)
  have len: "length (takeWhile is_ident_char (c # r)) = Suc (length r)" by (simp only: tk) simp
  have dr: "drop (length g1) (g1 @ ws @ c # r) = ws @ c # r" by simp
  have dr2: "drop (length ws) (ws @ c # r) = c # r" by simp
  have "re_decl_sub None (g1 @ ws @ c # r) = Some (length g1 + length ws + Suc (length r), g1, c # r)"
    unfolding re_decl_sub_def using ne st
    by (simp only: wb f Let_def spaces dr dr2 len ie option.case list.case if_True g2 list.sel)
       simp
  moreover obtain x xs where t: "g1 @ ws @ c # r = x # xs" by (cases "g1 @ ws @ c # r") auto
  ultimately have "FindStringSubmatch re_decl_sub None (x # xs)
      = [take (length g1 + length ws + Suc (length r)) (x # xs), g1, c # r]"
    by simp
  moreover have "take (length g1 + length ws + Suc (length r)) (g1 @ ws @ c # r) = g1 @ ws @ c # r"
    by simp
  ultimately show ?thesis by (simp add: t [symmetric] g2)
qed

lemma nth_name_no_STR: "set (nth_name i) \<inter> set ''STR_'' = {}"
proof -
  have "i mod 26 < 26" by simp
  then have "is_letter (alphabet ! (i mod 26))" by (rule alphabet_letters)
  moreover have "alphabet ! (i mod 26) \<in> set alphabet" by (simp add: alphabet_length)
  then have a: "alphabet ! (i mod 26) \<notin> set ''STR_''" unfolding alphabet_def by auto
  have d: "c \<notin> set ''STR_''" if "is_digit c" for c
    using that unfolding is_digit_def by auto
  have f: "c \<notin> set ''STR_''" if "c \<in> set (fmt_d (i div 26))" for c
    using that fmt_d_digits [of "i div 26"] d by blast
  have "set (nth_name i) \<subseteq> insert (alphabet ! (i mod 26)) (set (fmt_d (i div 26)))"
    unfolding nth_name_def by (cases "i div 26 = 0") simp_all
  with a f show ?thesis by blast
qed

text \<open>The closure of the declaration scan on a matched text.\<close>

lemma declare_fn_decl:
  assumes inv: "decl_inv m"
    and k: "g1 \<in> set decl_keywords" and ne: "ws \<noteq> []" and sp: "list_all is_space ws"
    and gi: "good_ident g2" and st: "is_ident_start (hd g2)"
  shows "\<exists>i m'. declare_fn m (g1 @ ws @ g2) = Inr (g1 @ '' '' @ nth_name i, m') \<and> decl_inv m'
           \<and> g2 \<in> fst ` set (varMap m') \<and> fst ` set (varMap m) \<subseteq> fst ` set (varMap m')"
proof -
  note pl = decl_rematch [OF k ne sp gi st]
  from inv obtain ks where vm: "varMap m = zip ks (map nth_name [0..<length ks])"
    and vc: "varCounter m = length ks" and dk: "distinct ks" and gk: "list_all good_ident ks"
    by (auto simp: decl_inv_def)
  show ?thesis
  proof (cases "map_of (varMap m) g2")
    case None
    then have nk: "g2 \<notin> set ks" using vm by (simp add: map_of_zip_is_None)
    then have nf: "g2 \<notin> fst ` set (varMap m)" using vm by (auto dest: set_zip_leftD)
    define name where "name = nth_name (length ks)"
    define m' where "m' = m\<lparr>varCounter := Suc (length ks), varMap := varMap m @ [(g2, name)]\<rparr>"
    have gen: "generateVarName m = Inr (name, m\<lparr>varCounter := Suc (length ks)\<rparr>)"
      by (simp add: generateVarName_eq vc name_def)
    have "map_of (varMap m) g2 = None" using nf by (simp add: map_of_eq_None_iff)
    then have mg: "map_get (varMap m') g2 = name"
      by (simp add: m'_def map_get_def map_add_def)
    have d: "declare_fn m (g1 @ ws @ g2) = Inr (g1 @ '' '' @ name, m')"
      using None mg
      by (simp add: declare_fn_def pl Let_def gen update_absent [OF nf] m'_def)
    have "varMap m' = zip (ks @ [g2]) (map nth_name [0..<length (ks @ [g2])])"
      by (simp add: m'_def vm name_def)
    moreover have "varCounter m' = length (ks @ [g2])" by (simp add: m'_def)
    moreover have "distinct (ks @ [g2])" using dk nk by simp
    moreover have "list_all good_ident (ks @ [g2])" using gk gi by simp
    ultimately have i: "decl_inv m'" unfolding decl_inv_def by blast
    have "g2 \<in> fst ` set (varMap m')" by (simp add: m'_def)
    moreover have "fst ` set (varMap m) \<subseteq> fst ` set (varMap m')" by (auto simp: m'_def)
    ultimately show ?thesis using d i unfolding name_def by blast
  next
    case (Some v)
    from decl_inv_values [OF inv Some] obtain i where v: "v = nth_name i" ..
    have d: "declare_fn m (g1 @ ws @ g2) = Inr (g1 @ '' '' @ v, m)"
      using Some by (simp add: declare_fn_def pl Let_def map_get_def)
    from Some have "(g2, v) \<in> set (varMap m)" by (rule map_of_SomeD)
    then have "g2 \<in> fst ` set (varMap m)" by force
    with d v inv show ?thesis by blast
  qed
qed

lemma sublist_skip_head:
  assumes "sublist (x # xs) (a @ b)" and "x \<notin> set a"
  shows "sublist (x # xs) b"
proof -
  from assms(1) consider "sublist (x # xs) a" | "sublist (x # xs) b"
    | x1 x2 where "x # xs = x1 @ x2" "suffix x1 a" "prefix x2 b"
    by (auto simp: sublist_append)
  then show ?thesis
  proof cases
    case 1
    then have "set (x # xs) \<subseteq> set a" by (rule set_mono_sublist)
    with assms(2) show ?thesis by simp
  next
    case 2
    then show ?thesis .
  next
    case 3
    show ?thesis
    proof (cases x1)
      case Nil
      with 3 show ?thesis by (auto intro: prefix_imp_sublist)
    next
      case (Cons y ys)
      with 3(1) have "y = x" by simp
      moreover from 3(2) have "set x1 \<subseteq> set a" by (rule set_mono_suffix)
      ultimately show ?thesis using Cons assms(2) by auto
    qed
  qed
qed

lemma keyword_no_STR: "g \<in> set decl_keywords \<Longrightarrow> set g \<inter> set ''STR_'' = {} \<and> g \<noteq> []"
  by (drule keyword_cases) auto

lemma space_no_STR: "is_space c \<Longrightarrow> c \<notin> set ''STR_''"
  unfolding is_space_def by auto

text \<open>
  The declaration scan over a shielded buffer: when no identifier of the rename table
  contains \<open>STR_\<close>, every placeholder stays where it is.
\<close>

lemma decl_pieces:
  assumes run: "ReplaceAllStringFunc re_decl declare_fn m prev (mixed {} n ps) = Inr (out, m')"
    and inv: "decl_inv m"
    and h: "\<And>k. k \<in> fst ` set (varMap m') \<Longrightarrow> \<not> sublist ''STR_'' k"
  shows "\<exists>ps'. out = mixed {} n ps' \<and> literals ps' = literals ps
           \<and> (\<forall>pre. \<not> sublist (map Chr ''STR_'') (pre @ ps)
                  \<longrightarrow> \<not> sublist (map Chr ''STR_'') (pre @ ps'))"
proof (rule scan_pieces [where re = re_decl and f = declare_fn and I = decl_inv and st = m
      and st' = m' and prev = prev
      and E = "\<lambda>t. \<exists>g1 ws g2. t = g1 @ ws @ g2 \<and> g1 \<in> set decl_keywords \<and> ws \<noteq> []
                 \<and> list_all is_space ws \<and> good_ident g2 \<and> is_ident_start (hd g2)"
      and B = "\<lambda>m t. \<exists>g1 ws g2. t = g1 @ ws @ g2 \<and> g1 \<in> set decl_keywords
                 \<and> list_all is_space ws \<and> g2 \<in> fst ` set (varMap m)"])
  fix p t j
  assume "re_decl p t = Some (Suc j)"
  then obtain g1 g2 where "re_decl_sub p t = Some (Suc j, g1, g2)"
    by (auto simp: re_decl_def)
  from re_decl_sub_shape [OF this] obtain ws rest where
    t: "t = g1 @ ws @ g2 @ rest" and j: "Suc j = length g1 + length ws + length g2"
    and k: "g1 \<in> set decl_keywords" and ne: "ws \<noteq> []" and sp: "list_all is_space ws"
    and gi: "good_ident g2" and st: "is_ident_start (hd g2)"
    and wb: "word_boundary p (next_char t)"
    and we: "word_boundary (Some (last g2)) (next_char rest)"
    by blast
  from gi have g2ne: "g2 \<noteq> []" and lw: "is_word (last g2)" by (simp_all add: good_ident_def)
  have tk: "take (Suc j) t = g1 @ ws @ g2" and dr: "drop (Suc j) t = rest"
    by (simp_all add: t j)
  from keyword_cases [OF k] have "\<exists>c. next_char (g1 @ ws @ g2 @ rest) = Some c \<and> is_word c"
    by (auto simp: next_char_def is_word_def is_letter_def)
  then have "\<exists>c. next_char t = Some c \<and> is_word c" unfolding t .
  with wb have 1: "\<not> (case p of None \<Rightarrow> False | Some x \<Rightarrow> is_word x)"
    by (auto simp: word_boundary_def)
  have 2: "Suc j \<le> length t" by (simp add: t j)
  have 3: "is_word (last (take (Suc j) t))" using lw g2ne by (simp add: tk)
  have 4: "boundary_at t (Suc j)"
    unfolding boundary_at_def tk dr using we g2ne by simp
  have 5: "\<exists>g1 ws g2. take (Suc j) t = g1 @ ws @ g2 \<and> g1 \<in> set decl_keywords \<and> ws \<noteq> []
      \<and> list_all is_space ws \<and> good_ident g2 \<and> is_ident_start (hd g2)"
    using tk k ne sp gi st by blast
  from 1 2 3 4 5
  show "\<not> (case p of None \<Rightarrow> False | Some x \<Rightarrow> is_word x) \<and> Suc j \<le> length t
      \<and> is_word (last (take (Suc j) t)) \<and> boundary_at t (Suc j)
      \<and> (\<exists>g1 ws g2. take (Suc j) t = g1 @ ws @ g2 \<and> g1 \<in> set decl_keywords \<and> ws \<noteq> []
            \<and> list_all is_space ws \<and> good_ident g2 \<and> is_ident_start (hd g2))"
    by blast
next
  fix st t r st1
  assume i: "decl_inv st"
    and e: "\<exists>g1 ws g2. t = g1 @ ws @ g2 \<and> g1 \<in> set decl_keywords \<and> ws \<noteq> []
              \<and> list_all is_space ws \<and> good_ident g2 \<and> is_ident_start (hd g2)"
    and f: "declare_fn st t = Inr (r, st1)"
  from e obtain g1 ws g2 where t: "t = g1 @ ws @ g2" and k: "g1 \<in> set decl_keywords"
    and ne: "ws \<noteq> []" and sp: "list_all is_space ws" and gi: "good_ident g2"
    and st: "is_ident_start (hd g2)" by blast
  from declare_fn_decl [OF i k ne sp gi st] obtain i' m1 where
    d: "declare_fn st (g1 @ ws @ g2) = Inr (g1 @ '' '' @ nth_name i', m1)"
    and i1': "decl_inv m1" and in1': "g2 \<in> fst ` set (varMap m1)" by blast
  from d f have r: "r = g1 @ '' '' @ nth_name i'" and m1: "st1 = m1" unfolding t by simp_all
  from i1' in1' have i1: "decl_inv st1" and in1: "g2 \<in> fst ` set (varMap st1)"
    unfolding m1 by simp_all
  have "set r = set g1 \<union> ({CHR '' ''} \<union> set (nth_name i'))" unfolding r by simp
  moreover have "CHR '' '' \<notin> set ''STR_''" by simp
  ultimately have "set r \<inter> set ''STR_'' = {}"
    using keyword_no_STR [OF k] nth_name_no_STR [of i'] by blast
  moreover have "r \<noteq> []" unfolding r by simp
  moreover have "\<exists>g1 ws g2. t = g1 @ ws @ g2 \<and> g1 \<in> set decl_keywords
      \<and> list_all is_space ws \<and> g2 \<in> fst ` set (varMap st1)"
    using t k sp in1 by blast
  ultimately show "decl_inv st1
      \<and> (\<exists>g1 ws g2. t = g1 @ ws @ g2 \<and> g1 \<in> set decl_keywords
            \<and> list_all is_space ws \<and> g2 \<in> fst ` set (varMap st1))
      \<and> r \<noteq> [] \<and> set r \<inter> set ''STR_'' = {}"
    using i1 by blast
next
  fix st t r st1 t'
  assume i: "decl_inv st"
    and e: "\<exists>g1 ws g2. t = g1 @ ws @ g2 \<and> g1 \<in> set decl_keywords \<and> ws \<noteq> []
              \<and> list_all is_space ws \<and> good_ident g2 \<and> is_ident_start (hd g2)"
    and f: "declare_fn st t = Inr (r, st1)"
    and b: "\<exists>g1 ws g2. t' = g1 @ ws @ g2 \<and> g1 \<in> set decl_keywords
              \<and> list_all is_space ws \<and> g2 \<in> fst ` set (varMap st)"
  from e obtain g1 ws g2 where t: "t = g1 @ ws @ g2" and k: "g1 \<in> set decl_keywords"
    and ne: "ws \<noteq> []" and sp: "list_all is_space ws" and gi: "good_ident g2"
    and st: "is_ident_start (hd g2)" by blast
  from declare_fn_decl [OF i k ne sp gi st] obtain i' m1 where
    d: "declare_fn st (g1 @ ws @ g2) = Inr (g1 @ '' '' @ nth_name i', m1)"
    and su: "fst ` set (varMap st) \<subseteq> fst ` set (varMap m1)" by blast
  from d f have "st1 = m1" unfolding t by simp
  with su have "fst ` set (varMap st) \<subseteq> fst ` set (varMap st1)" by simp
  with b show "\<exists>g1 ws g2. t' = g1 @ ws @ g2 \<and> g1 \<in> set decl_keywords
      \<and> list_all is_space ws \<and> g2 \<in> fst ` set (varMap st1)" by blast
next
  fix t
  assume "\<exists>g1 ws g2. t = g1 @ ws @ g2 \<and> g1 \<in> set decl_keywords
            \<and> list_all is_space ws \<and> g2 \<in> fst ` set (varMap m')"
  then obtain g1 ws g2 where t: "t = g1 @ ws @ g2" and k: "g1 \<in> set decl_keywords"
    and sp: "list_all is_space ws" and in1: "g2 \<in> fst ` set (varMap m')" by blast
  from h [OF in1] have ng: "\<not> sublist ''STR_'' g2" .
  have "CHR ''S'' \<notin> set g1" using keyword_no_STR [OF k] by auto
  moreover have "CHR ''S'' \<notin> set ws"
  proof
    assume "CHR ''S'' \<in> set ws"
    with sp have "is_space CHR ''S''" by (simp add: list_all_iff)
    then show False by (simp add: is_space_def)
  qed
  ultimately have "CHR ''S'' \<notin> set (g1 @ ws)" by simp
  show "\<not> sublist ''STR_'' t"
  proof
    assume "sublist ''STR_'' t"
    then have "sublist (CHR ''S'' # ''TR_'') ((g1 @ ws) @ g2)" by (simp add: t)
    from sublist_skip_head [OF this \<open>CHR ''S'' \<notin> set (g1 @ ws)\<close>] ng show False by simp
  qed
next
  show "ReplaceAllStringFunc re_decl declare_fn m prev (mixed {} n ps) = Inr (out, m')"
    by (rule run)
next
  show "decl_inv m" by (rule inv)
qed

section \<open>The usage loop over a shielded buffer\<close>

text \<open>The scan with a fixed replacement is the scan with a closure that ignores its state.\<close>

lemma ReplaceAllString_as_Func:
  "ReplaceAllStringFunc re (\<lambda>st t. Inr (repl, st)) st prev s
     = Inr (ReplaceAllString re repl prev s, st)"
proof (induction s arbitrary: prev rule: length_induct)
  case (1 s)
  show ?case
  proof (cases s)
    case Nil
    then show ?thesis by simp
  next
    case (Cons c cs)
    show ?thesis
    proof (cases "\<exists>j. re prev (c # cs) = Some (Suc j)")
      case True
      then obtain j where m: "re prev (c # cs) = Some (Suc j)" ..
      define p' where "p' = Some (last (c # take j cs))"
      have "length (drop j cs) < length s" using Cons by simp
      with 1 have ih: "ReplaceAllStringFunc re (\<lambda>st t. Inr (repl, st)) st p' (drop j cs)
          = Inr (ReplaceAllString re repl p' (drop j cs), st)" by blast
      have "ReplaceAllStringFunc re (\<lambda>st t. Inr (repl, st)) st prev (c # cs)
          = (case (\<lambda>st t. Inr (repl, st)) st (c # take j cs) of
               Inl e \<Rightarrow> Inl e
             | Inr (r, st') \<Rightarrow>
                 (case ReplaceAllStringFunc re (\<lambda>st t. Inr (repl, st)) st' p' (drop j cs) of
                    Inl e \<Rightarrow> Inl e
                  | Inr (out, st'') \<Rightarrow> Inr (r @ out, st'')))"
        using m unfolding p'_def by (rule ReplaceAllStringFunc_Cons_match)
      then have "ReplaceAllStringFunc re (\<lambda>st t. Inr (repl, st)) st prev (c # cs)
          = Inr (repl @ ReplaceAllString re repl p' (drop j cs), st)"
        by (simp add: ih)
      moreover have "ReplaceAllString re repl prev (c # cs)
          = repl @ ReplaceAllString re repl p' (drop j cs)"
        using m unfolding p'_def by (rule ReplaceAllString_Cons_match)
      ultimately show ?thesis using Cons by simp
    next
      case False
      then have nm: "\<And>j. re prev (c # cs) \<noteq> Some (Suc j)" by blast
      have "length cs < length s" using Cons by simp
      with 1 have ih: "ReplaceAllStringFunc re (\<lambda>st t. Inr (repl, st)) st (Some c) cs
          = Inr (ReplaceAllString re repl (Some c) cs, st)" by blast
      have "ReplaceAllStringFunc re (\<lambda>st t. Inr (repl, st)) st prev (c # cs)
          = (case ReplaceAllStringFunc re (\<lambda>st t. Inr (repl, st)) st (Some c) cs of
               Inl e \<Rightarrow> Inl e | Inr (out, st') \<Rightarrow> Inr (c # out, st'))"
        using nm by (rule ReplaceAllStringFunc_Cons_copy)
      then have "ReplaceAllStringFunc re (\<lambda>st t. Inr (repl, st)) st prev (c # cs)
          = Inr (c # ReplaceAllString re repl (Some c) cs, st)"
        by (simp add: ih)
      moreover have "ReplaceAllString re repl prev (c # cs)
          = c # ReplaceAllString re repl (Some c) cs"
        using nm by (rule ReplaceAllString_Cons_copy)
      ultimately show ?thesis using Cons by simp
    qed
  qed
qed

text \<open>The shape of a match of the usage pattern of a word.\<close>

lemma re_usage_shape:
  assumes k: "k \<noteq> []" "list_all is_word k"
    and m: "re_usage (map Lit k) prev t = Some (Suc j)"
  shows "\<not> (case prev of None \<Rightarrow> False | Some x \<Rightarrow> is_word x) \<and> Suc j \<le> length t
           \<and> is_word (last (take (Suc j) t)) \<and> boundary_at t (Suc j) \<and> take (Suc j) t = k"
proof -
  from m have wb: "word_boundary prev (next_char t)"
    and mi: "match_items (map Lit k) t = Some (Suc j)"
    and we: "word_boundary (Some (last (take (Suc j) t))) (next_char (drop (Suc j) t))"
    by (auto simp: re_usage_def split: if_splits option.splits)
  from mi have p: "prefix k t" and l: "length k = Suc j"
    by (auto simp: match_items_Lit split: if_splits)
  from p obtain r where t: "t = k @ r" by (auto simp: prefix_def)
  from k obtain c cs where kc: "k = c # cs" by (cases k) auto
  with k(2) have "is_word c" by simp
  then have "\<exists>x. next_char t = Some x \<and> is_word x" by (simp add: t kc next_char_def)
  with wb have 1: "\<not> (case prev of None \<Rightarrow> False | Some x \<Rightarrow> is_word x)"
    by (auto simp: word_boundary_def)
  have tk: "take (Suc j) t = k" using l by (simp add: t)
  have "last k \<in> set k" using k(1) by (rule last_in_set)
  with k(2) have "is_word (last k)" by (simp add: list_all_iff)
  with tk have 3: "is_word (last (take (Suc j) t))" by simp
  have 2: "Suc j \<le> length t" using l by (simp add: t)
  from we have 4: "boundary_at t (Suc j)" by (simp add: boundary_at_def)
  from 1 2 3 4 tk show ?thesis by blast
qed

text \<open>
  One whole-word replacement over a shielded buffer, for an identifier that does not
  contain \<open>STR_\<close>, leaves every placeholder where it is.
\<close>

lemma usage_pieces:
  assumes k: "k \<noteq> []" "list_all is_word k" and h: "\<not> sublist ''STR_'' k"
    and v: "v \<noteq> []" "set v \<inter> set ''STR_'' = {}"
  shows "\<exists>ps'. ReplaceAllString (re_usage (map Lit k)) v prev (mixed {} n ps) = mixed {} n ps'
           \<and> literals ps' = literals ps
           \<and> (\<forall>pre. \<not> sublist (map Chr ''STR_'') (pre @ ps)
                  \<longrightarrow> \<not> sublist (map Chr ''STR_'') (pre @ ps'))"
proof (rule scan_pieces [where re = "re_usage (map Lit k)" and f = "\<lambda>st t. Inr (v, st)"
      and I = "\<lambda>st. True" and st = "()" and st' = "()" and prev = prev
      and E = "\<lambda>t. t = k" and B = "\<lambda>st t. t = k"])
  fix p t j
  assume "re_usage (map Lit k) p t = Some (Suc j)"
  from re_usage_shape [OF k this]
  show "\<not> (case p of None \<Rightarrow> False | Some x \<Rightarrow> is_word x) \<and> Suc j \<le> length t
      \<and> is_word (last (take (Suc j) t)) \<and> boundary_at t (Suc j) \<and> take (Suc j) t = k" .
next
  fix st :: unit and t r st1
  assume "t = k" and "Inr (v, st) = Inr (r, st1)"
  with v show "True \<and> t = k \<and> r \<noteq> [] \<and> set r \<inter> set ''STR_'' = {}" by auto
next
  fix st :: unit and t r st1 t'
  assume "t' = k"
  then show "t' = k" .
next
  fix t
  assume "t = k"
  with h show "\<not> sublist ''STR_'' t" by simp
next
  show "ReplaceAllStringFunc (re_usage (map Lit k)) (\<lambda>st t. Inr (v, st)) () prev (mixed {} n ps)
      = Inr (ReplaceAllString (re_usage (map Lit k)) v prev (mixed {} n ps), ())"
    by (rule ReplaceAllString_as_Func)
next
  show True ..
qed

lemma usage_step_pieces:
  assumes g: "good_ident k" and h: "\<not> sublist ''STR_'' k" and v: "v = nth_name i"
  shows "\<exists>ps'. usage_step (k, v) (mixed {} n ps) = mixed {} n ps'
           \<and> literals ps' = literals ps
           \<and> (\<forall>pre. \<not> sublist (map Chr ''STR_'') (pre @ ps)
                  \<longrightarrow> \<not> sublist (map Chr ''STR_'') (pre @ ps'))"
proof -
  from usage_step_cases [OF g v]
  consider (dollar) "usage_step (k, v) = (\<lambda>code. code)"
    | (word) "list_all is_word k" by blast
  then show ?thesis
  proof cases
    case dollar
    then show ?thesis by auto
  next
    case word
    from g have ne: "k \<noteq> []" by (simp add: good_ident_def)
    have "usage_step (k, v) (mixed {} n ps)
        = ReplaceAllString (re_usage (map Lit k)) v None (mixed {} n ps)"
      by (simp add: usage_step_def compile_ident_word [OF word])
    moreover have "v \<noteq> []" "set v \<inter> set ''STR_'' = {}"
      unfolding v by (rule nth_name_nonempty, rule nth_name_no_STR)
    ultimately show ?thesis using usage_pieces [OF ne word h, of v None n ps] by simp
  qed
qed

lemma usage_fold_pieces:
  assumes "\<forall>(k, v) \<in> set tbl. good_ident k \<and> \<not> sublist ''STR_'' k \<and> (\<exists>i. v = nth_name i)"
  shows "\<exists>ps'. fold usage_step tbl (mixed {} n ps) = mixed {} n ps'
           \<and> literals ps' = literals ps
           \<and> (\<forall>pre. \<not> sublist (map Chr ''STR_'') (pre @ ps)
                  \<longrightarrow> \<not> sublist (map Chr ''STR_'') (pre @ ps'))"
  using assms
proof (induction tbl arbitrary: ps)
  case Nil
  show ?case by auto
next
  case (Cons e tbl)
  obtain k v where e: "e = (k, v)" by (cases e)
  from Cons.prems e obtain i where g: "good_ident k" and h: "\<not> sublist ''STR_'' k"
    and v: "v = nth_name i" by auto
  from usage_step_pieces [OF g h v, of n ps] obtain ps1 where
    s1: "usage_step (k, v) (mixed {} n ps) = mixed {} n ps1"
    and l1: "literals ps1 = literals ps"
    and r1: "\<forall>pre. \<not> sublist (map Chr ''STR_'') (pre @ ps)
               \<longrightarrow> \<not> sublist (map Chr ''STR_'') (pre @ ps1)" by blast
  from Cons.prems have "\<forall>(k, v) \<in> set tbl. good_ident k \<and> \<not> sublist ''STR_'' k
      \<and> (\<exists>i. v = nth_name i)" by simp
  from Cons.IH [OF this, of ps1] obtain ps2 where
    s2: "fold usage_step tbl (mixed {} n ps1) = mixed {} n ps2"
    and l2: "literals ps2 = literals ps1"
    and r2: "\<forall>pre. \<not> sublist (map Chr ''STR_'') (pre @ ps1)
               \<longrightarrow> \<not> sublist (map Chr ''STR_'') (pre @ ps2)" by blast
  have "fold usage_step (e # tbl) (mixed {} n ps) = mixed {} n ps2" by (simp add: e s1 s2)
  moreover have "literals ps2 = literals ps" using l1 l2 by simp
  moreover have "\<forall>pre. \<not> sublist (map Chr ''STR_'') (pre @ ps)
      \<longrightarrow> \<not> sublist (map Chr ''STR_'') (pre @ ps2)" using r1 r2 by blast
  ultimately show ?case by blast
qed

section \<open>String literals through the renamer\<close>

lemma shield_table_literals:
  "literals ps' = literals ps \<Longrightarrow> shield_table n ps' = shield_table n ps"
  by (simp add: shield_table_def)

text \<open>
  The renamer on a buffer free of \<open>STR_\<close>, when no identifier of the rename table contains
  \<open>STR_\<close>: the declaration scan and the usage loop leave every placeholder where shielding
  wrote it, and the restore loop writes every literal back.
\<close>

lemma renamer_pieces:
  assumes wf: "well_formed it" and h1: "\<not> sublist ''STR_'' code"
    and run: "shortenVariableNames it (NewMinifier inp pl sv) code = Inr (out, m')"
    and h2: "\<forall>(k, v) \<in> set (varMap m'). \<not> sublist ''STR_'' k"
  shows "\<exists>ps2 ps3.
           ReplaceAllStringFunc re_decl declare_fn (NewMinifier inp pl sv) None
               (mixed {} 0 (pieces code)) = Inr (mixed {} 0 ps2, m')
           \<and> usage_loop (range_varMap it (varMap m')) (mixed {} 0 ps2) = Inr (mixed {} 0 ps3)
           \<and> literals ps2 = literals (pieces code) \<and> wf_pieces ps2
           \<and> literals ps3 = literals (pieces code) \<and> wf_pieces ps3
           \<and> out = restore_loop (range_stringLiterals it (shield_table 0 (pieces code)))
                     (mixed {} 0 ps3)
           \<and> out = unparse ps3"
proof -
  let ?ps = "pieces code"
  let ?m0 = "NewMinifier inp pl sv"
  let ?run = "map Chr ''STR_''"
  have w: "wf_pieces ?ps" using h1 by (rule wf_pieces_of_text)
  from run have c: "(case ReplaceAllStringFunc re_decl declare_fn ?m0 None (mixed {} 0 ?ps) of
        Inl e \<Rightarrow> Inl e
      | Inr (code, m) \<Rightarrow>
          (case usage_loop (range_varMap it (varMap m)) code of
             Inl e \<Rightarrow> Inl e
           | Inr code \<Rightarrow>
               Inr (restore_loop (range_stringLiterals it (shield_table 0 ?ps)) code, m)))
      = Inr (out, m')"
    by (simp add: shortenVariableNames_def shield_scan_empty)
  obtain buf2 buf3 where
    dec: "ReplaceAllStringFunc re_decl declare_fn ?m0 None (mixed {} 0 ?ps) = Inr (buf2, m')"
    and use: "usage_loop (range_varMap it (varMap m')) buf2 = Inr buf3"
    and out: "out = restore_loop (range_stringLiterals it (shield_table 0 ?ps)) buf3"
  proof (cases "ReplaceAllStringFunc re_decl declare_fn ?m0 None (mixed {} 0 ?ps)")
    case (Inl e)
    with c show ?thesis by simp
  next
    case (Inr y)
    obtain b2 m2 where y: "y = (b2, m2)" by (cases y)
    show ?thesis
    proof (cases "usage_loop (range_varMap it (varMap m2)) b2")
      case (Inl e)
      with c Inr y show ?thesis by simp
    next
      case Inr2: (Inr b3)
      with c Inr y have "out = restore_loop (range_stringLiterals it (shield_table 0 ?ps)) b3"
        and "m2 = m'" by simp_all
      with Inr y Inr2 that show ?thesis by simp
    qed
  qed
  have inv0: "decl_inv ?m0" by (rule decl_inv_NewMinifier)
  have hk: "\<not> sublist ''STR_'' k" if "k \<in> fst ` set (varMap m')" for k
    using that h2 by auto
  from decl_pieces [OF dec inv0 hk] obtain ps2 where b2: "buf2 = mixed {} 0 ps2"
    and l2: "literals ps2 = literals ?ps"
    and r2: "\<forall>pre. \<not> sublist ?run (pre @ ?ps) \<longrightarrow> \<not> sublist ?run (pre @ ps2)" by blast
  have inv: "decl_inv m'" using dec by (rule decl_scan_inv)
  have sr: "set (range_varMap it (varMap m')) = set (varMap m')"
    using wf by (simp add: well_formed_def is_range_set)
  have ent: "\<forall>(k, v) \<in> set (range_varMap it (varMap m')).
      good_ident k \<and> \<not> sublist ''STR_'' k \<and> (\<exists>i. v = nth_name i)"
  proof (rule ballI)
    fix e
    assume e: "e \<in> set (range_varMap it (varMap m'))"
    obtain k v where kv: "e = (k, v)" by (cases e)
    with e sr have i: "(k, v) \<in> set (varMap m')" by simp
    from decl_inv_entries [OF inv i] have "good_ident k" "\<exists>i. v = nth_name i" by simp_all
    moreover from i h2 have "\<not> sublist ''STR_'' k" by auto
    ultimately show "case e of (k, v) \<Rightarrow>
        good_ident k \<and> \<not> sublist ''STR_'' k \<and> (\<exists>i. v = nth_name i)"
      by (simp add: kv)
  qed
  then have ic: "\<forall>(k, v) \<in> set (range_varMap it (varMap m')). list_all is_ident_char k"
    by (auto simp: good_ident_def)
  from usage_fold_pieces [OF ent, of 0 ps2] obtain ps3 where
    f3: "fold usage_step (range_varMap it (varMap m')) (mixed {} 0 ps2) = mixed {} 0 ps3"
    and l3: "literals ps3 = literals ps2"
    and r3: "\<forall>pre. \<not> sublist ?run (pre @ ps2) \<longrightarrow> \<not> sublist ?run (pre @ ps3)" by blast
  from usage_loop_fold [OF ic, of "mixed {} 0 ps2"] f3
  have u3: "usage_loop (range_varMap it (varMap m')) (mixed {} 0 ps2) = Inr (mixed {} 0 ps3)"
    by simp
  with use b2 have b3: "buf3 = mixed {} 0 ps3" by simp
  from w have wl: "list_all (\<lambda>l. quoted l \<and> \<not> sublist ''STR_'' l) (literals ?ps)"
    and wr: "\<not> sublist ?run ?ps" by (simp_all add: wf_pieces_def)
  from r2 [rule_format, of "[]"] wr have wr2: "\<not> sublist ?run ps2" by simp
  from r3 [rule_format, of "[]"] wr2 have wr3: "\<not> sublist ?run ps3" by simp
  have w2: "wf_pieces ps2" using wl wr2 l2 by (simp add: wf_pieces_def)
  have w3: "wf_pieces ps3" using wl wr3 l2 l3 by (simp add: wf_pieces_def)
  have st: "shield_table 0 ?ps = shield_table 0 ps3"
    using l2 l3 by (simp add: shield_table_def)
  let ?tbl = "range_stringLiterals it (shield_table 0 ps3)"
  have ss: "set ?tbl = set (shield_table 0 ps3)"
    using wf by (simp add: well_formed_def is_range_set)
  have e: "\<exists>k. p = placeholder_of k \<and> lit_is 0 ps3 k l" if "(p, l) \<in> set ?tbl" for p l
    using that ss shield_table_entries [of p l 0 ps3] by auto
  have "restore_loop ?tbl (mixed {} 0 ps3)
      = mixed ({} \<union> {k. placeholder_of k \<in> fst ` set ?tbl}) 0 ps3"
    using w3 e by (rule restore_all)
  also have "fst ` set ?tbl = placeholder_of ` {0..<0 + length (literals ps3)}"
    unfolding ss by (rule shield_table_keys)
  also have "mixed ({} \<union> {k. placeholder_of k \<in> placeholder_of ` {0..<0 + length (literals ps3)}}) 0 ps3
      = unparse ps3"
    by (rule mixed_all) auto
  finally have re: "restore_loop ?tbl (mixed {} 0 ps3) = unparse ps3" .
  have o1: "out = restore_loop (range_stringLiterals it (shield_table 0 ?ps)) (mixed {} 0 ps3)"
    using out b3 by simp
  then have o2: "out = unparse ps3" using re st by simp
  from dec b2 have d2: "ReplaceAllStringFunc re_decl declare_fn ?m0 None (mixed {} 0 ?ps)
      = Inr (mixed {} 0 ps2, m')" by simp
  have l3': "literals ps3 = literals ?ps" using l2 l3 by simp
  show ?thesis
    by (rule exI [of _ ps2], rule exI [of _ ps3], intro conjI) (rule d2 u3 l2 w2 l3' w3 o1 o2)+
qed




text \<open>
  Claim C10 (as amended). Take a buffer that does not contain the text \<open>STR_\<close>, and
  suppose that no identifier that the renaming stage declares on it contains \<open>STR_\<close>.
  Then the placeholders of the table are pairwise distinct and none is an identifier of
  the rename table; each placeholder occurs in the shielded buffer only where shielding
  wrote it (replacing it there changes that one literal and nothing else); the buffer
  after the declaration scan and the usage loop still has every placeholder at the
  position of its literal, so these passes rewrite no part of a placeholder; and the
  restore loop, in any order, writes every literal back: the result is that buffer with
  each placeholder replaced by its literal.
\<close>

theorem placeholders_restored:
  assumes "well_formed it" and "\<not> sublist ''STR_'' code"
    and "shortenVariableNames it (NewMinifier inp pl sv) code = Inr (out, m')"
    and "\<forall>(k, v) \<in> set (varMap m'). \<not> sublist ''STR_'' k"
  shows "\<exists>buf tbl buf2 buf3 ps'.
           ReplaceAllStringFunc re_string shield_fn [] None code = Inr (buf, tbl)
           \<and> ReplaceAllStringFunc re_decl declare_fn (NewMinifier inp pl sv) None buf
               = Inr (buf2, m')
           \<and> usage_loop (range_varMap it (varMap m')) buf2 = Inr buf3
           \<and> out = restore_loop (range_stringLiterals it tbl) buf3
           \<and> distinct (map fst tbl)
           \<and> buf = mixed {} 0 (pieces code)
           \<and> buf3 = mixed {} 0 ps' \<and> literals ps' = literals (pieces code)
           \<and> (\<forall>(p, l) \<in> set tbl. p \<notin> fst ` set (varMap m')
                  \<and> (\<exists>k. p = placeholder_of k
                         \<and> strings_Replace buf p l = mixed {k} 0 (pieces code)
                         \<and> strings_Replace buf3 p l = mixed {k} 0 ps'))
           \<and> out = unparse ps'"
proof -
  let ?ps = "pieces code"
  from renamer_pieces [OF assms] obtain ps2 ps3 where
    dec: "ReplaceAllStringFunc re_decl declare_fn (NewMinifier inp pl sv) None (mixed {} 0 ?ps)
            = Inr (mixed {} 0 ps2, m')"
    and use: "usage_loop (range_varMap it (varMap m')) (mixed {} 0 ps2) = Inr (mixed {} 0 ps3)"
    and l3: "literals ps3 = literals ?ps" and w3: "wf_pieces ps3"
    and o1: "out = restore_loop (range_stringLiterals it (shield_table 0 ?ps)) (mixed {} 0 ps3)"
    and o2: "out = unparse ps3"
    by blast
  have w: "wf_pieces ?ps" using assms(2) by (rule wf_pieces_of_text)
  have st: "shield_table 0 ps3 = shield_table 0 ?ps" using l3 by (rule shield_table_literals)
  have e: "p \<notin> fst ` set (varMap m')
      \<and> (\<exists>k. p = placeholder_of k
             \<and> strings_Replace (mixed {} 0 ?ps) p l = mixed {k} 0 ?ps
             \<and> strings_Replace (mixed {} 0 ps3) p l = mixed {k} 0 ps3)"
    if i: "(p, l) \<in> set (shield_table 0 ?ps)" for p l
  proof -
    from shield_table_entries [OF i] obtain k where k: "p = placeholder_of k"
      and li: "lit_is 0 ?ps k l" by blast
    from i st have "(p, l) \<in> set (shield_table 0 ps3)" by simp
    from shield_table_entries [OF this] obtain k' where k': "p = placeholder_of k'"
      and li': "lit_is 0 ps3 k' l" by blast
    from k k' have "k' = k" by (auto dest: placeholder_of_inj)
    with li' have li3: "lit_is 0 ps3 k l" by simp
    have "p \<notin> fst ` set (varMap m')"
    proof
      assume "p \<in> fst ` set (varMap m')"
      with assms(4) have "\<not> sublist ''STR_'' p" by auto
      with placeholder_has_STR [of k] k show False by simp
    qed
    moreover have "strings_Replace (mixed {} 0 ?ps) p l = mixed {k} 0 ?ps"
      unfolding k using restore_step [OF w li, of "{}"] by simp
    moreover have "strings_Replace (mixed {} 0 ps3) p l = mixed {k} 0 ps3"
      unfolding k using restore_step [OF w3 li3, of "{}"] by simp
    ultimately show ?thesis using k by blast
  qed
  then have all: "\<forall>(p, l) \<in> set (shield_table 0 ?ps). p \<notin> fst ` set (varMap m')
      \<and> (\<exists>k. p = placeholder_of k
             \<and> strings_Replace (mixed {} 0 ?ps) p l = mixed {k} 0 ?ps
             \<and> strings_Replace (mixed {} 0 ps3) p l = mixed {k} 0 ps3)"
    by blast
  show ?thesis
    by (rule exI [of _ "mixed {} 0 ?ps"], rule exI [of _ "shield_table 0 ?ps"],
        rule exI [of _ "mixed {} 0 ps2"], rule exI [of _ "mixed {} 0 ps3"],
        rule exI [of _ ps3], intro conjI)
       (rule shield_scan_empty dec use o1 shield_table_distinct refl l3 all o2)+
qed

theorem placeholders_restored_witness:
  "well_formed reverse_order
   \<and> \<not> sublist ''STR_'' (''var total='' @ [dquote] @ ''a b'' @ [dquote] @ '';f(total,'' @ [squote]
          @ ''var x'' @ [squote] @ '');'')
   \<and> shortenVariableNames reverse_order (NewMinifier [] False True)
        (''var total='' @ [dquote] @ ''a b'' @ [dquote] @ '';f(total,'' @ [squote]
           @ ''var x'' @ [squote] @ '');'')
      = Inr (''var a='' @ [dquote] @ ''a b'' @ [dquote] @ '';f(a,'' @ [squote]
               @ ''var x'' @ [squote] @ '');'',
             NewMinifier [] False True\<lparr>varMap := [(''total'', ''a'')], varCounter := 1\<rparr>)
   \<and> (\<exists>ps'. usage_loop [(''total'', ''a'')] ''var a=__STR_0__;f(total,__STR_1__);''
                 = Inr (mixed {} 0 ps')
          \<and> ''var a='' @ [dquote] @ ''a b'' @ [dquote] @ '';f(a,'' @ [squote]
               @ ''var x'' @ [squote] @ '');'' = unparse ps'
          \<and> literals ps' = [[dquote] @ ''a b'' @ [dquote], [squote] @ ''var x'' @ [squote]])"
proof -
  define code where "code = ''var total='' @ [dquote] @ ''a b'' @ [dquote] @ '';f(total,''
    @ [squote] @ ''var x'' @ [squote] @ '');''"
  define res where "res = ''var a='' @ [dquote] @ ''a b'' @ [dquote] @ '';f(a,'' @ [squote]
    @ ''var x'' @ [squote] @ '');''"
  define m' where "m' = NewMinifier [] False True\<lparr>varMap := [(''total'', ''a'')], varCounter := 1\<rparr>"
  have 1: "\<not> sublist ''STR_'' code" unfolding code_def by code_simp
  have 2: "shortenVariableNames reverse_order (NewMinifier [] False True) code = Inr (res, m')"
    unfolding code_def res_def m'_def by code_simp
  have 3: "\<forall>(k, v) \<in> set (varMap m'). \<not> sublist ''STR_'' k"
    by (simp add: m'_def sublist_Cons_right)
  have 4: "literals (pieces code) = [[dquote] @ ''a b'' @ [dquote], [squote] @ ''var x'' @ [squote]]"
    unfolding code_def by code_simp
  have 5: "ReplaceAllStringFunc re_string shield_fn [] None code
      = Inr (''var total=__STR_0__;f(total,__STR_1__);'',
             [(''__STR_0__'', [dquote] @ ''a b'' @ [dquote]),
              (''__STR_1__'', [squote] @ ''var x'' @ [squote])])"
    unfolding code_def by code_simp
  have 6: "ReplaceAllStringFunc re_decl declare_fn (NewMinifier [] False True) None
        ''var total=__STR_0__;f(total,__STR_1__);''
      = Inr (''var a=__STR_0__;f(total,__STR_1__);'', m')"
    unfolding m'_def by code_simp
  have 7: "range_varMap reverse_order (varMap m') = [(''total'', ''a'')]"
    by (simp add: m'_def reverse_order_def)
  from placeholders_restored [OF well_formed_reverse_order 1 2 3]
  obtain buf tbl buf2 buf3 ps' where
    a: "ReplaceAllStringFunc re_string shield_fn [] None code = Inr (buf, tbl)"
    and b: "ReplaceAllStringFunc re_decl declare_fn (NewMinifier [] False True) None buf
              = Inr (buf2, m')"
    and c: "usage_loop (range_varMap reverse_order (varMap m')) buf2 = Inr buf3"
    and d: "buf3 = mixed {} 0 ps'" and e: "literals ps' = literals (pieces code)"
    and f: "res = unparse ps'"
    by blast
  from a 5 have "buf = ''var total=__STR_0__;f(total,__STR_1__);''" by simp
  with b 6 have "buf2 = ''var a=__STR_0__;f(total,__STR_1__);''" by simp
  with c d 7 have "usage_loop [(''total'', ''a'')] ''var a=__STR_0__;f(total,__STR_1__);''
      = Inr (mixed {} 0 ps')" by simp
  with e f 4 have "\<exists>ps'. usage_loop [(''total'', ''a'')] ''var a=__STR_0__;f(total,__STR_1__);''
                 = Inr (mixed {} 0 ps')
          \<and> res = unparse ps'
          \<and> literals ps' = [[dquote] @ ''a b'' @ [dquote], [squote] @ ''var x'' @ [squote]]"
    by auto
  with well_formed_reverse_order 1 2 show ?thesis
    unfolding code_def res_def m'_def by blast
qed

theorem placeholders_restored_counterexample:
  "shortenVariableNames insertion_order (NewMinifier [] False True)
       (''__STR_0__='' @ [dquote] @ ''x'' @ [dquote])
     = Inr ([dquote] @ ''x'' @ [dquote] @ ''='' @ [dquote] @ ''x'' @ [dquote], NewMinifier [] False True)
   \<and> ReplaceAllStringFunc re_string shield_fn [] None (''__STR_0__='' @ [dquote] @ ''x'' @ [dquote])
     = Inr (''__STR_0__=__STR_0__'', [(''__STR_0__'', [dquote] @ ''x'' @ [dquote])])
   \<and> shortenVariableNames insertion_order (NewMinifier [] False True)
       (''var '' @ [dquote] @ ''x'' @ [dquote])
     = Inr (''var a'',
            NewMinifier [] False True\<lparr>varMap := [(''__STR_0__'', ''a'')], varCounter := 1\<rparr>)
   \<and> ReplaceAllStringFunc re_decl declare_fn (NewMinifier [] False True) None ''var __STR_0__''
     = Inr (''var a'',
            NewMinifier [] False True\<lparr>varMap := [(''__STR_0__'', ''a'')], varCounter := 1\<rparr>)"
  by (intro conjI; code_simp)

section \<open>Every pattern matches at least one byte\<close>

lemma static_patterns_nonempty:
  assumes "re \<in> {re_license, re_line_comment, re_block_comment, re_trim, re_multi_space,
                  re_semicolons, re_function, re_newlines, re_comma_space, re_string, re_decl}
                 \<union> range re_around"
  shows "re prev s \<noteq> Some 0"
proof
  assume z: "re prev s = Some 0"
  from assms consider "re = re_license" | "re = re_line_comment" | "re = re_block_comment"
    | "re = re_trim" | "re = re_multi_space" | "re = re_semicolons" | "re = re_function"
    | "re = re_newlines" | "re = re_comma_space" | "re = re_string" | "re = re_decl"
    | c where "re = re_around c"
    by blast
  then show False
  proof cases
    case 1
    with z re_license_Some [of prev s 0] show False by simp
  next
    case 2
    with z re_line_comment_Some [of prev s 0] show False by simp
  next
    case 3
    with z re_block_comment_Some [of prev s 0] show False by simp
  next
    case 4
    with z re_trim_Some [of prev s 0] show False by simp
  next
    case 5
    with z re_multi_space_Some [of prev s 0] show False by simp
  next
    case 6
    with z re_semicolons_Some [of prev s 0] show False by simp
  next
    case 7
    with z re_function_Some [of prev s 0] show False by simp
  next
    case 8
    with z re_newlines_Some [of prev s 0] show False by simp
  next
    case 9
    with z re_comma_space_Some [of prev s 0] show False by simp
  next
    case 10
    with z re_string_Some [of prev s 0] show False by simp
  next
    case 11
    with z obtain g1 g2 where "re_decl_sub prev s = Some (0, g1, g2)"
      by (auto simp: re_decl_def)
    from re_decl_sub_shape [OF this] show False by auto
  next
    case 12
    with z re_around_Some [of c prev s 0] show False by simp
  qed
qed

end
